theory Spec2Isabelle
  imports Complex_Main "HOL-Library.Multiset"
begin

section \<open>Errors\<close>

text \<open>
  Every failure of \<^verbatim>\<open>src/Rational.ts\<close> is a thrown exception. The model returns it as a
  value. The constructors follow the error kinds the specification names, plus the two
  exceptions of the host language that the source can raise without a \<^verbatim>\<open>throw\<close> of its
  own.
\<close>

datatype error =
    InvalidOperand    \<comment> \<open>\<^verbatim>\<open>new Error('denominator <= 0')\<close>, line 143\<close>
  | DivisionByZero    \<comment> \<open>\<^verbatim>\<open>new Error('inversion of zero')\<close>, line 310\<close>
  | EmptyInput        \<comment> \<open>\<^verbatim>\<open>new Error('empty arguments list')\<close>, line 136\<close>
  | MalformedInput    \<comment> \<open>a numeral that \<^verbatim>\<open>BigInt(...)\<close> or the decimal parser rejects\<close>
  | TypeError         \<comment> \<open>\<^verbatim>\<open>BigInt(undefined)\<close>; \<^verbatim>\<open>reduce\<close> of an empty array with no seed\<close>
  | RangeError        \<comment> \<open>big-integer division by zero\<close>

section \<open>Big integers (module \<^verbatim>\<open>../bigint/bigint\<close>, not among the sources)\<close>

text \<open>
  \<^verbatim>\<open>bigint\<close> values are unbounded, so they are \<^typ>\<open>int\<close>. The module that provides
  \<^verbatim>\<open>abs\<close>, \<^verbatim>\<open>gcd\<close>, \<^verbatim>\<open>divide\<close>, \<^verbatim>\<open>e\<close> and \<^verbatim>\<open>RoundMethod\<close> is imported by
  \<^verbatim>\<open>Rational.ts\<close> but is not part of the sources at hand; the definitions of this section
  follow the specification's description of it.
\<close>

text \<open>
  Modelled from the spec: the type \<^verbatim>\<open>RoundMethod\<close> of the absent big-integer module. The
  specification names truncation toward zero (\<^verbatim>\<open>toZero\<close>, the default) and expects
  away-from-zero, floor and ceiling; it also mentions a nearest mode whose tie-break it
  does not fix, which is therefore left out.
\<close>

datatype RoundMethod = toZero | awayFromZero | floor_method | ceiling_method

text \<open>
  Modelled from the spec: the integer quotient of \<open>a\<close> by a nonzero \<open>b\<close> under a rounding
  method (the arithmetic of the absent \<^verbatim>\<open>divide\<close>).
\<close>

definition round_quotient :: "int \<Rightarrow> int \<Rightarrow> RoundMethod \<Rightarrow> int" where
  "round_quotient a b m =
     (case m of
        toZero \<Rightarrow> sgn a * sgn b * (\<bar>a\<bar> div \<bar>b\<bar>)
      | awayFromZero \<Rightarrow> sgn a * sgn b * (- ((- \<bar>a\<bar>) div \<bar>b\<bar>))
      | floor_method \<Rightarrow> a div b
      | ceiling_method \<Rightarrow> - ((- a) div b))"

text \<open>
  Modelled from the spec: \<^verbatim>\<open>divide(a, b, method)\<close> of the absent big-integer module,
  "integer division under a named rounding method". Big-integer division by zero raises
  \<^verbatim>\<open>RangeError\<close> in the host language. A call without a method is modelled by passing
  \<^const>\<open>toZero\<close>.
\<close>

definition divide_big :: "int \<Rightarrow> int \<Rightarrow> RoundMethod \<Rightarrow> error + int" where
  "divide_big a b m = (if b = 0 then Inl RangeError else Inr (round_quotient a b m))"

text \<open>
  Modelled from the spec: \<^verbatim>\<open>e(a, n, method)\<close> of the absent big-integer module,
  "power-of-ten scaling": \<open>a \<times> 10\<^sup>n\<close>, and for a negative \<open>n\<close> the rounded quotient of \<open>a\<close> by
  \<open>10\<^sup>-\<^sup>n\<close> (the "further rounding pass" that trims digits).
\<close>

definition e_big :: "int \<Rightarrow> int \<Rightarrow> RoundMethod \<Rightarrow> int" where
  "e_big a n m = (if 0 \<le> n then a * 10 ^ nat n else round_quotient a (10 ^ nat (- n)) m)"

text \<open>Modelled from the spec: \<^verbatim>\<open>abs\<close> and \<^verbatim>\<open>gcd\<close> of the absent big-integer module.\<close>

definition abs_big :: "int \<Rightarrow> int" where
  "abs_big a = \<bar>a\<bar>"

definition gcd_big :: "int \<Rightarrow> int \<Rightarrow> int" where
  "gcd_big a b = gcd a b"

section \<open>Strings of the host language\<close>

text \<open>
  Strings are \<^typ>\<open>string\<close>; a HOL character is one byte, so the model covers the strings
  whose code units are below 256. All numerals and the separator \<^verbatim>\<open>/\<close> are ASCII.
\<close>

definition digit_char :: "nat \<Rightarrow> char" where
  "digit_char d = ''0123456789'' ! (d mod 10)"

fun toString_nat :: "nat \<Rightarrow> string" where
  "toString_nat n =
     (if n < 10 then [digit_char n] else toString_nat (n div 10) @ [digit_char (n mod 10)])"

declare toString_nat.simps [simp del]

text \<open>\<^verbatim>\<open>`${b}`\<close> and \<^verbatim>\<open>b.toString()\<close> for a bigint \<open>b\<close>: decimal digits, \<^verbatim>\<open>-\<close> before a negative.\<close>

definition toString_big :: "int \<Rightarrow> string" where
  "toString_big i = (if i < 0 then CHR ''-'' # toString_nat (nat (- i)) else toString_nat (nat i))"

definition digit_val :: "nat \<Rightarrow> char \<Rightarrow> nat option" where
  "digit_val radix c =
     (case List.find (\<lambda>(ch, v). ch = c)
        (zip ''0123456789abcdefABCDEF'' [0, 1, 2, 3, 4, 5, 6, 7, 8, 9, 10, 11, 12, 13, 14, 15, 10, 11, 12, 13, 14, 15]) of
        Some (ch, v) \<Rightarrow> if v < radix then Some v else None
      | None \<Rightarrow> None)"

text \<open>A non-empty run of digits of the radix, read most significant digit first.\<close>

fun digits_value :: "nat \<Rightarrow> nat \<Rightarrow> string \<Rightarrow> nat option" where
  "digits_value radix acc [] = Some acc"
| "digits_value radix acc (c # cs) =
     (case digit_val radix c of
        None \<Rightarrow> None
      | Some v \<Rightarrow> digits_value radix (acc * radix + v) cs)"

definition parse_digits :: "nat \<Rightarrow> string \<Rightarrow> error + int" where
  "parse_digits radix ds =
     (if ds = [] then Inl MalformedInput
      else case digits_value radix 0 ds of
             None \<Rightarrow> Inl MalformedInput
           | Some v \<Rightarrow> Inr (int v))"

definition is_space :: "char \<Rightarrow> bool" where
  "is_space c = (of_char c \<in> {9, 10, 11, 12, 13, 32, 160 :: nat})"

definition trim :: "string \<Rightarrow> string" where
  "trim s = rev (dropWhile is_space (rev (dropWhile is_space s)))"

text \<open>
  \<^verbatim>\<open>BigInt(x)\<close> of the host language for \<open>x\<close> a string or \<^verbatim>\<open>undefined\<close> (\<^const>\<open>None\<close>):
  \<^verbatim>\<open>undefined\<close> raises \<^verbatim>\<open>TypeError\<close>; a string is trimmed of white space; the empty text
  is \<open>0\<close>; a \<^verbatim>\<open>0x\<close>, \<^verbatim>\<open>0o\<close> or \<^verbatim>\<open>0b\<close> prefix selects the radix; otherwise an optional sign
  and decimal digits; anything else raises \<^verbatim>\<open>SyntaxError\<close>.
\<close>

definition BigInt :: "string option \<Rightarrow> error + int" where
  "BigInt x =
     (case x of
        None \<Rightarrow> Inl TypeError
      | Some s \<Rightarrow>
          (case trim s of
             [] \<Rightarrow> Inr 0
           | [c] \<Rightarrow> parse_digits 10 [c]
           | c # d # ds \<Rightarrow>
               if c = CHR ''0'' \<and> (d = CHR ''x'' \<or> d = CHR ''X'') then parse_digits 16 ds
               else if c = CHR ''0'' \<and> (d = CHR ''o'' \<or> d = CHR ''O'') then parse_digits 8 ds
               else if c = CHR ''0'' \<and> (d = CHR ''b'' \<or> d = CHR ''B'') then parse_digits 2 ds
               else if c = CHR ''+'' then parse_digits 10 (d # ds)
               else if c = CHR ''-'' then map_sum id uminus (parse_digits 10 (d # ds))
               else parse_digits 10 (c # d # ds)))"

text \<open>\<^verbatim>\<open>s.split('/')\<close>: the pieces between the separators; never empty.\<close>

fun split_slash :: "string \<Rightarrow> string list" where
  "split_slash [] = [[]]"
| "split_slash (c # cs) =
     (if c = CHR ''/'' then [] # split_slash cs
      else (case split_slash cs of
              [] \<Rightarrow> [[c]]
            | p # ps \<Rightarrow> (c # p) # ps))"

text \<open>
  \<^verbatim>\<open>const [a, b] = xs\<close>: the first element (a split always has one) and the second, which
  is \<^verbatim>\<open>undefined\<close> when the array has a single element. Further elements are ignored.
\<close>

definition first_part :: "string list \<Rightarrow> string" where
  "first_part xs = (case xs of [] \<Rightarrow> [] | a # _ \<Rightarrow> a)"

definition second_part :: "string list \<Rightarrow> string option" where
  "second_part xs = (case xs of a # b # _ \<Rightarrow> Some b | _ \<Rightarrow> None)"

section \<open>Decimals (module \<^verbatim>\<open>../decimal/Decimal\<close>, not among the sources)\<close>

text \<open>
  Modelled from the spec: the decimal value type of the absent decimal module, which
  "holds a signed integer significand and an exponent", denoting the significand times
  ten to the exponent.
\<close>

record Decimal =
  significand :: int
  exponent :: int

text \<open>
  Modelled from the spec: \<^verbatim>\<open>Decimal.fromBigInt(significand, exponent)\<close> and
  \<^verbatim>\<open>Decimal.ZERO\<close> of the absent decimal module. The specification's scenario
  "\<^verbatim>\<open>10/4\<close> rounded to 2 places is \<^verbatim>\<open>2.50\<close>" shows that the significand is kept as
  given (no trailing zero is stripped).
\<close>

definition Decimal_fromBigInt :: "int \<Rightarrow> int \<Rightarrow> Decimal" where
  "Decimal_fromBigInt s x = \<lparr>significand = s, exponent = x\<rparr>"

definition Decimal_ZERO :: Decimal where
  "Decimal_ZERO = \<lparr>significand = 0, exponent = 0\<rparr>"

text \<open>
  Modelled from the spec: \<^verbatim>\<open>D(n)\<close> of the absent decimal module, the decimal of a native
  number. Native numbers are floating point; the model covers the integer-valued ones
  (the only call inside \<^verbatim>\<open>Rational.ts\<close> passes an array length), as \<^typ>\<open>int\<close>.
\<close>

definition D_number :: "int \<Rightarrow> Decimal" where
  "D_number n = \<lparr>significand = n, exponent = 0\<rparr>"

text \<open>
  Modelled from the spec: \<^verbatim>\<open>decimal.string\<close> of the absent decimal module, the
  "canonical string form": positional notation, as in the scenario's \<^verbatim>\<open>2.50\<close>. It is
  used as a cache key only.
\<close>

definition Decimal_string :: "Decimal \<Rightarrow> string" where
  "Decimal_string d =
     (let ds = toString_nat (nat \<bar>significand d\<bar>);
          sign = (if significand d < 0 then [CHR ''-''] else [])
      in if 0 \<le> exponent d then sign @ ds @ replicate (nat (exponent d)) (CHR ''0'')
         else let k = nat (- exponent d);
                  padded = replicate (Suc k - length ds) (CHR ''0'') @ ds;
                  cut = length padded - k
              in sign @ take cut padded @ [CHR ''.''] @ drop cut padded)"

definition is_digit :: "char \<Rightarrow> bool" where
  "is_digit c = (digit_val 10 c \<noteq> None)"

text \<open>
  Modelled from the spec: \<^verbatim>\<open>Decimal.fromString\<close> of the absent decimal module, which
  parses "sign, digits, optional fractional part, optional exponent" into significand
  and exponent, and fails with \<^const>\<open>MalformedInput\<close> on anything else.
\<close>

definition Decimal_fromString :: "string \<Rightarrow> error + Decimal" where
  "Decimal_fromString s =
     (let (neg, r0) = (case s of
                         [] \<Rightarrow> (False, s)
                       | c # r \<Rightarrow> if c = CHR ''-'' then (True, r)
                                  else if c = CHR ''+'' then (False, r) else (False, s));
          ip = takeWhile is_digit r0;
          r1 = dropWhile is_digit r0;
          (fp, r2) = (case r1 of
                        [] \<Rightarrow> ([], r1)
                      | c # r \<Rightarrow> if c = CHR ''.'' then (takeWhile is_digit r, dropWhile is_digit r)
                                 else ([], r1));
          ex = (case r2 of
                  [] \<Rightarrow> Inr 0
                | c # r \<Rightarrow> if c = CHR ''e'' \<or> c = CHR ''E''
                           then (case r of
                                   [] \<Rightarrow> Inl MalformedInput
                                 | d # r' \<Rightarrow> if d = CHR ''-'' then map_sum id uminus (parse_digits 10 r')
                                             else if d = CHR ''+'' then parse_digits 10 r'
                                             else parse_digits 10 r)
                           else Inl MalformedInput)
      in if ip = [] then Inl MalformedInput
         else case (parse_digits 10 (ip @ fp), ex) of
                (Inr v, Inr x) \<Rightarrow>
                  Inr \<lparr>significand = (if neg then - v else v), exponent = x - int (length fp)\<rparr>
              | _ \<Rightarrow> Inl MalformedInput)"

section \<open>The data model of \<^verbatim>\<open>Rational.ts\<close>\<close>

text \<open>
  A \<^verbatim>\<open>Rational\<close> is an immutable object with the fields \<^verbatim>\<open>numerator\<close> and
  \<^verbatim>\<open>denominator\<close> (lines 16-22). The source also depends on the identity of one object:
  \<^verbatim>\<open>this === Rational.ZERO\<close> (line 293) and the accessor installed on that one instance
  (lines 308-312). The field \<open>ident\<close> records which object a value is: one of the two static
  instances of lines 8-9, or an object allocated by \<^verbatim>\<open>new Rational\<close> in \<^verbatim>\<open>create\<close>
  (line 151). Allocated objects are never compared with each other by identity in the
  source, so they need no further name.
\<close>

datatype object_identity = ZERO_instance | ONE_instance | Allocated

record Rational =
  ident :: object_identity
  numerator :: int
  denominator :: int

definition ZERO :: Rational where
  "ZERO = \<lparr>ident = ZERO_instance, numerator = 0, denominator = 1\<rparr>"

definition ONE :: Rational where
  "ONE = \<lparr>ident = ONE_instance, numerator = 1, denominator = 1\<rparr>"

definition new_Rational :: "int \<Rightarrow> int \<Rightarrow> Rational" where
  "new_Rational n d = \<lparr>ident = Allocated, numerator = n, denominator = d\<rparr>"

section \<open>The interning cache\<close>

text \<open>
  Cache keys are strings or native numbers (\<^verbatim>\<open>Map\<close> keeps the two apart). A \<^verbatim>\<open>Map\<close>
  iterates in insertion order, so both maps are association lists with unique keys:
  \<^verbatim>\<open>set\<close> overwrites in place or appends, \<^verbatim>\<open>delete\<close> removes.
\<close>

datatype key = KString string | KNumber int

type_synonym rational_map = "(key \<times> Rational) list"

fun Map_set :: "rational_map \<Rightarrow> key \<Rightarrow> Rational \<Rightarrow> rational_map" where
  "Map_set [] k v = [(k, v)]"
| "Map_set ((k', v') # m) k v = (if k' = k then (k, v) # m else (k', v') # Map_set m k v)"

definition Map_get :: "rational_map \<Rightarrow> key \<Rightarrow> Rational option" where
  "Map_get m k = map_of m k"

definition Map_delete :: "rational_map \<Rightarrow> key \<Rightarrow> rational_map" where
  "Map_delete m k = filter (\<lambda>(k', v'). k' \<noteq> k) m"

record cache_state =
  cache :: rational_map
  cacheHits :: rational_map

text \<open>Both maps are created empty (lines 10-14).\<close>

definition initial_state :: cache_state where
  "initial_state = \<lparr>cache = [], cacheHits = []\<rparr>"

text \<open>
  \<^verbatim>\<open>addToCache\<close> (lines 24-47). Its body starts with a bare \<^verbatim>\<open>return\<close> (line 28): the
  call changes nothing.
\<close>

definition addToCache :: "Rational \<Rightarrow> key \<Rightarrow> cache_state \<Rightarrow> cache_state" where
  "addToCache rational k s = s"

text \<open>
  The statements of \<^verbatim>\<open>addToCache\<close> after the \<^verbatim>\<open>return\<close> (lines 32-46), which are never
  executed: at size \<open>2\<^sup>1\<^sup>6\<close> every entry of \<^verbatim>\<open>cacheHits\<close> is deleted from and set again in
  \<^verbatim>\<open>cache\<close>, \<^verbatim>\<open>cacheHits\<close> is cleared and the first \<open>2\<^sup>1\<^sup>2\<close> keys of the iteration order are
  deleted; then the new entry is set.
\<close>

definition refresh :: "rational_map \<Rightarrow> rational_map \<Rightarrow> rational_map" where
  "refresh hits m = foldl (\<lambda>c (k, r). Map_set (Map_delete c k) k r) m hits"

definition addToCache_unreachable :: "Rational \<Rightarrow> key \<Rightarrow> cache_state \<Rightarrow> cache_state" where
  "addToCache_unreachable rational k s =
     (let s1 = (if length (cache s) = 2 ^ 16
                then \<lparr>cache = drop (2 ^ 12) (refresh (cacheHits s) (cache s)), cacheHits = []\<rparr>
                else s)
      in s1\<lparr>cache := Map_set (cache s1) k rational\<rparr>)"

text \<open>\<^verbatim>\<open>getFromCache\<close> (lines 49-57): a hit is recorded in \<^verbatim>\<open>cacheHits\<close>.\<close>

definition getFromCache :: "key \<Rightarrow> cache_state \<Rightarrow> Rational option \<times> cache_state" where
  "getFromCache k s =
     (case Map_get (cache s) k of
        Some rational \<Rightarrow> (Some rational, s\<lparr>cacheHits := Map_set (cacheHits s) k rational\<rparr>)
      | None \<Rightarrow> (None, s))"

section \<open>Computations over the cache\<close>

text \<open>
  An operation that may consult the cache and may throw takes the state and returns the
  outcome with the state it leaves behind (the maps outlive an exception).
\<close>

type_synonym 'a io = "cache_state \<Rightarrow> (error + 'a) \<times> cache_state"

definition return :: "'a \<Rightarrow> 'a io" where
  "return x = (\<lambda>s. (Inr x, s))"

definition throw :: "error \<Rightarrow> 'a io" where
  "throw err = (\<lambda>s. (Inl err, s))"

definition bind :: "'a io \<Rightarrow> ('a \<Rightarrow> 'b io) \<Rightarrow> 'b io" where
  "bind m f = (\<lambda>s. case m s of (Inl err, s') \<Rightarrow> (Inl err, s') | (Inr x, s') \<Rightarrow> f x s')"

definition lift :: "error + 'a \<Rightarrow> 'a io" where
  "lift r = (\<lambda>s. (r, s))"

text \<open>
  The pattern shared by \<^verbatim>\<open>create\<close> and the four entry points: look the key up; on a miss
  compute the value and hand it to \<^verbatim>\<open>addToCache\<close>; return it.

  \<^verbatim>\<open>let rational = Rational.getFromCache(key)\<close>
  \<^verbatim>\<open>if (!rational) { rational = ...; Rational.addToCache(rational, key) }\<close>
  \<^verbatim>\<open>return rational\<close>
\<close>

definition cached :: "key \<Rightarrow> Rational io \<Rightarrow> Rational io" where
  "cached k compute =
     (\<lambda>s. case getFromCache k s of
             (Some rational, s1) \<Rightarrow> (Inr rational, s1)
           | (None, s1) \<Rightarrow>
               (case compute s1 of
                  (Inl err, s2) \<Rightarrow> (Inl err, s2)
                | (Inr rational, s2) \<Rightarrow> (Inr rational, addToCache rational k s2)))"

section \<open>Canonical construction\<close>

text \<open>\<^verbatim>\<open>create\<close> (lines 140-158). A bigint is falsy exactly when it is \<open>0\<close>.\<close>

definition create :: "int \<Rightarrow> int \<Rightarrow> Rational io" where
  "create n d =
     (if n \<noteq> 0 then
        if d \<le> 0 then throw InvalidOperand
        else
          cached (KString (toString_big n @ ''/'' @ toString_big d))
            (let gcd2 = gcd_big n d
             in bind (lift (divide_big n gcd2 toZero)) (\<lambda>numerator2.
                bind (lift (divide_big d gcd2 toZero)) (\<lambda>denominator2.
                return (new_Rational numerator2 denominator2))))
      else return ZERO)"

section \<open>Accessors and arithmetic\<close>

text \<open>
  The getters marked \<^verbatim>\<open>@selfReplacing\<close> compute their value on first access and keep it
  on the object. The objects are immutable and identity is modelled only up to
  \<^typ>\<open>object_identity\<close>, so the getters are modelled as the functions they compute.
  The getter \<^verbatim>\<open>number\<close> and \<^verbatim>\<open>Symbol.toPrimitive\<close> produce native floating-point
  numbers and are left out.
\<close>

definition json :: "Rational \<Rightarrow> string" where
  "json r = toString_big (numerator r) @ ''/'' @ toString_big (denominator r)"

definition string_r :: "Rational \<Rightarrow> string" where
  "string_r r =
     toString_big (numerator r) @ (if denominator r = 1 then [] else ''/'' @ toString_big (denominator r))"

definition negative :: "Rational \<Rightarrow> bool" where
  "negative r = (numerator r < 0)"

definition negated :: "Rational \<Rightarrow> Rational io" where
  "negated r = create (- numerator r) (denominator r)"

definition abs_r :: "Rational \<Rightarrow> Rational io" where
  "abs_r r = (if negative r then negated r else return r)"

text \<open>
  \<^verbatim>\<open>inverted\<close> (lines 226-232), and the accessor that lines 308-312 install on the
  instance \<^verbatim>\<open>Rational.ZERO\<close>, which shadows the getter of the class on that object.
\<close>

definition inverted :: "Rational \<Rightarrow> Rational io" where
  "inverted r =
     (if ident r = ZERO_instance then throw DivisionByZero
      else create (if negative r then - denominator r else denominator r) (abs_big (numerator r)))"

definition add :: "Rational \<Rightarrow> Rational \<Rightarrow> Rational io" where
  "add r rational =
     (let a = numerator r * denominator rational;
          b = numerator rational * denominator r
      in create (a + b) (denominator r * denominator rational))"

definition sub :: "Rational \<Rightarrow> Rational \<Rightarrow> Rational io" where
  "sub r rational = bind (negated rational) (\<lambda>n. add r n)"

definition mul :: "Rational \<Rightarrow> Rational \<Rightarrow> Rational io" where
  "mul r rational =
     create (numerator r * numerator rational) (denominator r * denominator rational)"

definition div_r :: "Rational \<Rightarrow> Rational \<Rightarrow> Rational io" where
  "div_r r rational = bind (inverted rational) (\<lambda>i. mul r i)"

section \<open>Comparison\<close>

definition cmp :: "Rational \<Rightarrow> Rational \<Rightarrow> int" where
  "cmp r rational =
     (if negative r = negative rational then
        let a = numerator r * denominator rational;
            b = numerator rational * denominator r
        in if a < b then - 1 else if a > b then 1 else 0
      else if negative r then - 1 else 1)"

definition eq_r :: "Rational \<Rightarrow> Rational \<Rightarrow> bool" where
  "eq_r r rational = (cmp r rational = 0)"

definition ne :: "Rational \<Rightarrow> Rational \<Rightarrow> bool" where
  "ne r rational = (cmp r rational \<noteq> 0)"

definition lt :: "Rational \<Rightarrow> Rational \<Rightarrow> bool" where
  "lt r rational = (cmp r rational = - 1)"

definition le :: "Rational \<Rightarrow> Rational \<Rightarrow> bool" where
  "le r rational = (cmp r rational \<noteq> 1)"

definition gt :: "Rational \<Rightarrow> Rational \<Rightarrow> bool" where
  "gt r rational = (cmp r rational = 1)"

definition ge :: "Rational \<Rightarrow> Rational \<Rightarrow> bool" where
  "ge r rational = (cmp r rational \<noteq> - 1)"

section \<open>Entry points\<close>

text \<open>\<^verbatim>\<open>fromDecimal\<close> (lines 93-103).\<close>

definition fromDecimal :: "Decimal \<Rightarrow> Rational io" where
  "fromDecimal decimal =
     cached (KString (Decimal_string decimal))
       (create
          (e_big (significand decimal) (if exponent decimal > 0 then exponent decimal else 0) toZero)
          (e_big 1 (if exponent decimal < 0 then - exponent decimal else 0) toZero))"

text \<open>\<^verbatim>\<open>fromNumber\<close> (lines 84-91), for an integer-valued number.\<close>

definition fromNumber :: "int \<Rightarrow> Rational io" where
  "fromNumber n = cached (KNumber n) (fromDecimal (D_number n))"

text \<open>
  \<^verbatim>\<open>fromJson\<close> (lines 59-67): the first two pieces of the split go to \<^verbatim>\<open>BigInt\<close>, the
  numerator first.
\<close>

definition fromJson :: "string \<Rightarrow> Rational io" where
  "fromJson numberString =
     cached (KString numberString)
       (let parts = split_slash numberString
        in bind (lift (BigInt (Some (first_part parts)))) (\<lambda>n.
           bind (lift (BigInt (second_part parts))) (\<lambda>d.
           create n d)))"

text \<open>
  \<^verbatim>\<open>fromString\<close> (lines 69-82): the division happens only when the second piece is
  truthy, that is, neither \<^verbatim>\<open>undefined\<close> nor the empty string.
\<close>

definition fromString :: "string \<Rightarrow> Rational io" where
  "fromString numberString =
     cached (KString numberString)
       (let parts = split_slash numberString
        in bind (lift (Decimal_fromString (first_part parts))) (\<lambda>d1.
           bind (fromDecimal d1) (\<lambda>rational.
           case second_part parts of
             None \<Rightarrow> return rational
           | Some denominatorString \<Rightarrow>
               if denominatorString = [] then return rational
               else bind (lift (Decimal_fromString denominatorString)) (\<lambda>d2.
                    bind (fromDecimal d2) (\<lambda>r2.
                    div_r rational r2)))))"

text \<open>
  \<^verbatim>\<open>R\<close> (lines 314-323): a number goes to \<^verbatim>\<open>fromNumber\<close>, a decimal to
  \<^verbatim>\<open>fromDecimal\<close>; the argument type leaves no other case.
\<close>

definition R_of :: "int + Decimal \<Rightarrow> Rational io" where
  "R_of x = (case x of Inl n \<Rightarrow> fromNumber n | Inr d \<Rightarrow> fromDecimal d)"

section \<open>Aggregates\<close>

text \<open>\<^verbatim>\<open>xs.reduce(f, seed)\<close> for a callback that may consult the cache or throw.\<close>

primrec reduce :: "('a \<Rightarrow> 'b \<Rightarrow> 'a io) \<Rightarrow> 'a \<Rightarrow> 'b list \<Rightarrow> 'a io" where
  "reduce f acc [] = return acc"
| "reduce f acc (x # xs) = bind (f acc x) (\<lambda>acc'. reduce f acc' xs)"

text \<open>
  \<^verbatim>\<open>min\<close> and \<^verbatim>\<open>max\<close> (lines 105-115) reduce without a seed: the first element is the
  seed, and an empty array raises \<^verbatim>\<open>TypeError\<close>.
\<close>

definition min_r :: "Rational list \<Rightarrow> Rational io" where
  "min_r rationals =
     (case rationals of
        [] \<Rightarrow> throw TypeError
      | x # xs \<Rightarrow> return (foldl (\<lambda>result rational. if lt result rational then result else rational) x xs))"

definition max_r :: "Rational list \<Rightarrow> Rational io" where
  "max_r rationals =
     (case rationals of
        [] \<Rightarrow> throw TypeError
      | x # xs \<Rightarrow> return (foldl (\<lambda>result rational. if gt result rational then result else rational) x xs))"

definition sum_r :: "Rational list \<Rightarrow> Rational io" where
  "sum_r rationals = reduce (\<lambda>result rational. add result rational) ZERO rationals"

text \<open>\<^verbatim>\<open>avg\<close> (lines 124-126): the sum is computed first, then \<^verbatim>\<open>R(rationals.length)\<close>.\<close>

definition avg :: "Rational list \<Rightarrow> Rational io" where
  "avg rationals =
     bind (sum_r rationals) (\<lambda>total.
     bind (R_of (Inl (int (length rationals)))) (\<lambda>count.
     div_r total count))"

text \<open>
  \<^verbatim>\<open>rationals.sort((a, b) => a.cmp(b))\<close>: a stable sort by the comparator, here by
  insertion; an element goes before the first one it does not exceed.
\<close>

fun insert_cmp :: "Rational \<Rightarrow> Rational list \<Rightarrow> Rational list" where
  "insert_cmp x [] = [x]"
| "insert_cmp x (y # ys) = (if cmp x y \<le> 0 then x # y # ys else y # insert_cmp x ys)"

definition sort_cmp :: "Rational list \<Rightarrow> Rational list" where
  "sort_cmp xs = foldr insert_cmp xs []"

text \<open>
  \<^verbatim>\<open>median\<close> (lines 128-138). \<^verbatim>\<open>length >> 1\<close> is \<open>length div 2\<close> and \<^verbatim>\<open>length & 1\<close> is truthy
  for an odd length. Both indices are in range: the list is not empty, and an even
  length is at least 2.
\<close>

definition median :: "Rational list \<Rightarrow> Rational io" where
  "median rationals =
     (if length rationals \<noteq> 0 then
        let sorted = sort_cmp rationals;
            half = length sorted div 2
        in if odd (length sorted) then return (sorted ! half)
           else avg [sorted ! (half - 1), sorted ! half]
      else throw EmptyInput)"

section \<open>Rounding\<close>

text \<open>\<^verbatim>\<open>roundByRational\<close> (lines 267-277).\<close>

definition roundByRational :: "Rational \<Rightarrow> Rational \<Rightarrow> RoundMethod \<Rightarrow> Rational io" where
  "roundByRational r rational method =
     bind (div_r r rational) (\<lambda>division.
     bind (lift (divide_big (numerator division) (denominator division) method)) (\<lambda>numerator2.
     create (numerator rational * numerator2) (denominator rational)))"

text \<open>\<^verbatim>\<open>roundToDecimal\<close> (lines 279-287); it does not touch the cache.\<close>

definition roundToDecimal :: "Rational \<Rightarrow> int \<Rightarrow> RoundMethod \<Rightarrow> error + Decimal" where
  "roundToDecimal r decimal method =
     (let numerator' = e_big (numerator r) (if decimal > 0 then decimal else 0) toZero;
          denominator' = e_big (denominator r) (if decimal < 0 then - decimal else 0) toZero
      in case divide_big numerator' denominator' method of
           Inl err \<Rightarrow> Inl err
         | Inr numerator2 \<Rightarrow> Inr (Decimal_fromBigInt numerator2 (- decimal)))"

text \<open>
  \<^verbatim>\<open>roundToSignificants\<close> (lines 289-305). \<^verbatim>\<open>Number(div < 0)\<close> is \<open>1\<close> for a negative
  \<open>div\<close>, so \<open>divLength\<close> counts digits without the sign.
\<close>

definition roundToSignificants :: "Rational \<Rightarrow> int \<Rightarrow> RoundMethod \<Rightarrow> error + Decimal" where
  "roundToSignificants r significantsLength method =
     (if ident r = ZERO_instance then Inr Decimal_ZERO
      else
        let denominatorLength = int (length (toString_big (denominator r)));
            extension = significantsLength + denominatorLength;
            extendedNumerator = e_big (numerator r) extension toZero
        in case divide_big extendedNumerator (denominator r) method of
             Inl err \<Rightarrow> Inl err
           | Inr div' \<Rightarrow>
               (let divLength = int (length (toString_big div')) - (if div' < 0 then 1 else 0);
                    digitsSurplus = divLength - significantsLength;
                    significants = e_big div' (- digitsSurplus) method;
                    exponent' = digitsSurplus - extension
                in Inr (Decimal_fromBigInt significants exponent')))"

section \<open>Notions used in the statements\<close>

text \<open>The canonical form of the specification: reduced, with a positive denominator.\<close>

definition canonical :: "Rational \<Rightarrow> bool" where
  "canonical r = (gcd \<bar>numerator r\<bar> (denominator r) = 1 \<and> 1 \<le> denominator r)"

text \<open>
  The objects a run of the program can hold: canonical, and with numerator \<open>0\<close> exactly
  when the object is the instance \<^verbatim>\<open>Rational.ZERO\<close>.
\<close>

definition well_formed :: "Rational \<Rightarrow> bool" where
  "well_formed r = (canonical r \<and> ((numerator r = 0) = (ident r = ZERO_instance)))"

text \<open>The exact rational number an object denotes.\<close>

definition value_of :: "Rational \<Rightarrow> rat" where
  "value_of r = Fract (numerator r) (denominator r)"

text \<open>Structural equality: the same numerator and the same denominator.\<close>

definition same_fraction :: "Rational \<Rightarrow> Rational \<Rightarrow> bool" where
  "same_fraction a b = (numerator a = numerator b \<and> denominator a = denominator b)"

text \<open>
  A computation started with an empty \<^verbatim>\<open>cache\<close> map leaves the state as it was, and
  a value it returns satisfies \<open>P\<close>.
\<close>

definition keeps :: "('a \<Rightarrow> bool) \<Rightarrow> 'a io \<Rightarrow> bool" where
  "keeps P m = (\<forall>s. cache s = [] \<longrightarrow> snd (m s) = s \<and> (\<forall>x. fst (m s) = Inr x \<longrightarrow> P x))"

text \<open>
  The public operations of the class that return a \<^verbatim>\<open>Rational\<close>, as calls with their
  arguments; \<open>operands\<close> are the objects a call receives.
\<close>

datatype call =
    FromJson string
  | FromString string
  | FromNumber int
  | FromDecimal Decimal
  | Min "Rational list"
  | Max "Rational list"
  | Sum "Rational list"
  | Avg "Rational list"
  | Median "Rational list"
  | Add Rational Rational
  | Sub Rational Rational
  | Mul Rational Rational
  | Div Rational Rational
  | Negated Rational
  | Abs Rational
  | Inverted Rational
  | RoundByRational Rational Rational RoundMethod

fun run_call :: "call \<Rightarrow> Rational io" where
  "run_call (FromJson s) = fromJson s"
| "run_call (FromString s) = fromString s"
| "run_call (FromNumber n) = fromNumber n"
| "run_call (FromDecimal d) = fromDecimal d"
| "run_call (Min xs) = min_r xs"
| "run_call (Max xs) = max_r xs"
| "run_call (Sum xs) = sum_r xs"
| "run_call (Avg xs) = avg xs"
| "run_call (Median xs) = median xs"
| "run_call (Add a b) = add a b"
| "run_call (Sub a b) = sub a b"
| "run_call (Mul a b) = mul a b"
| "run_call (Div a b) = div_r a b"
| "run_call (Negated a) = negated a"
| "run_call (Abs a) = abs_r a"
| "run_call (Inverted a) = inverted a"
| "run_call (RoundByRational a b m) = roundByRational a b m"

fun operands :: "call \<Rightarrow> Rational set" where
  "operands (FromJson s) = {}"
| "operands (FromString s) = {}"
| "operands (FromNumber n) = {}"
| "operands (FromDecimal d) = {}"
| "operands (Min xs) = set xs"
| "operands (Max xs) = set xs"
| "operands (Sum xs) = set xs"
| "operands (Avg xs) = set xs"
| "operands (Median xs) = set xs"
| "operands (Add a b) = {a, b}"
| "operands (Sub a b) = {a, b}"
| "operands (Mul a b) = {a, b}"
| "operands (Div a b) = {a, b}"
| "operands (Negated a) = {a}"
| "operands (Abs a) = {a}"
| "operands (Inverted a) = {a}"
| "operands (RoundByRational a b m) = {a, b}"

text \<open>
  The runs of a program that uses the class: it starts with the two static instances and
  empty maps; each step calls a public operation on objects it already holds and, when
  the call returns, holds the result as well.
\<close>

inductive reachable :: "cache_state \<Rightarrow> Rational set \<Rightarrow> bool" where
  start: "reachable initial_state {ZERO, ONE}"
| step: "reachable s V \<Longrightarrow> operands c \<subseteq> V \<Longrightarrow> run_call c s = (res, s') \<Longrightarrow>
         reachable s' (case res of Inl err \<Rightarrow> V | Inr r \<Rightarrow> insert r V)"

text \<open>The number of decimal digits of a big integer, sign aside.\<close>

definition digits :: "int \<Rightarrow> nat" where
  "digits i = length (toString_nat (nat \<bar>i\<bar>))"

text \<open>
  With an empty cache, the computation returns a well-formed object of value \<open>v\<close> and
  leaves the state as it was.
\<close>

definition yields :: "Rational io \<Rightarrow> cache_state \<Rightarrow> rat \<Rightarrow> bool" where
  "yields m s v = (\<exists>r. m s = (Inr r, s) \<and> well_formed r \<and> value_of r = v)"

section \<open>Construction with an empty cache\<close>

text \<open>
  \<^verbatim>\<open>addToCache\<close> never stores, so the \<^verbatim>\<open>cache\<close> map of a run stays empty (see
  \<open>reachable_invariant\<close> below); with an empty map every lookup misses and the state is
  not touched.
\<close>

lemma round_quotient_exact: "0 < g \<Longrightarrow> g dvd a \<Longrightarrow> round_quotient a g toZero = a div g"
proof -
  assume g: "0 < g" and d: "g dvd a"
  then obtain k where k: "a = g * k" by (auto simp: dvd_def)
  have "\<bar>a\<bar> div \<bar>g\<bar> = \<bar>k\<bar>" using g k by (simp add: abs_mult)
  moreover have "sgn a = sgn k" using g k by (simp add: sgn_mult)
  moreover have "a div g = k" using g k by simp
  ultimately show ?thesis using g by (simp add: round_quotient_def mult_sgn_abs)
qed

lemma getFromCache_empty: "cache s = [] \<Longrightarrow> getFromCache k s = (None, s)"
  by (simp add: getFromCache_def Map_get_def)

lemma cached_empty: "cache s = [] \<Longrightarrow> cached k m s = m s"
  by (simp add: cached_def getFromCache_empty addToCache_def split: prod.splits sum.splits)

lemma create_empty:
  "cache s = [] \<Longrightarrow>
   create n d s =
     (if n = 0 then (Inr ZERO, s)
      else if d \<le> 0 then (Inl InvalidOperand, s)
      else (Inr (new_Rational (n div gcd n d) (d div gcd n d)), s))"
proof -
  assume c: "cache s = []"
  show ?thesis
  proof (cases "n \<noteq> 0 \<and> 0 < d")
    case True
    then have g: "0 < gcd n d" by (simp add: gcd_pos_int)
    have "round_quotient n (gcd n d) toZero = n div gcd n d" "round_quotient d (gcd n d) toZero = d div gcd n d"
      using g by (simp_all add: round_quotient_exact)
    then show ?thesis using True g c
      by (simp add: create_def cached_empty bind_def lift_def return_def divide_big_def gcd_big_def Let_def)
  next
    case False
    then show ?thesis by (auto simp: create_def throw_def return_def)
  qed
qed

lemma well_formed_reduced:
  assumes "n \<noteq> 0" "0 < d"
  shows "well_formed (new_Rational (n div gcd n d) (d div gcd n d))"
proof -
  have g: "0 < gcd n d" using assms by (simp add: gcd_pos_int)
  have cop: "coprime (n div gcd n d) (d div gcd n d)"
    using assms by (simp add: div_gcd_coprime)
  have dpos: "0 < d div gcd n d"
    using assms g by (simp add: pos_imp_zdiv_pos_iff zdvd_imp_le)
  have nnz: "n div gcd n d \<noteq> 0"
    using assms g by (metis dvd_div_eq_0_iff gcd_dvd1)
  show ?thesis using cop dpos nnz
    by (simp add: well_formed_def canonical_def new_Rational_def coprime_iff_gcd_eq_1)
qed

lemma value_of_reduced:
  assumes "0 < d"
  shows "value_of (new_Rational (n div gcd n d) (d div gcd n d)) = Fract n d"
proof -
  have g: "gcd n d \<noteq> 0" using assms by simp
  have "Fract (gcd n d * (n div gcd n d)) (gcd n d * (d div gcd n d)) = Fract (n div gcd n d) (d div gcd n d)"
    using g by (rule mult_rat_cancel)
  then show ?thesis by (simp add: value_of_def new_Rational_def)
qed

lemma well_formed_ZERO: "well_formed ZERO" 
  by (simp add: well_formed_def canonical_def ZERO_def)
lemma well_formed_ONE: "well_formed ONE" 
  by (simp add: well_formed_def canonical_def ONE_def)

lemma well_formed_zero_iff: "well_formed r \<Longrightarrow> (numerator r = 0) = (r = ZERO)"
  by (cases r) (auto simp: well_formed_def canonical_def ZERO_def)

section \<open>Every operation keeps the state and returns well-formed objects\<close>

lemma keepsI:
  "(\<And>s. cache s = [] \<Longrightarrow> snd (m s) = s) \<Longrightarrow>
   (\<And>s x. cache s = [] \<Longrightarrow> fst (m s) = Inr x \<Longrightarrow> P x) \<Longrightarrow> keeps P m"
  by (simp add: keeps_def)

lemma keepsD:
  "keeps P m \<Longrightarrow> cache s = [] \<Longrightarrow> m s = (res, s') \<Longrightarrow> s' = s \<and> (\<forall>x. res = Inr x \<longrightarrow> P x)"
  by (auto simp: keeps_def)

lemma keeps_return: "P x \<Longrightarrow> keeps P (return x)"
  by (simp add: keeps_def return_def)

lemma keeps_throw: "keeps P (throw err)"
  by (simp add: keeps_def throw_def)

lemma keeps_lift: "keeps (\<lambda>x. True) (lift v)"
  by (simp add: keeps_def lift_def)

lemma keeps_bind:
  assumes "keeps P m" and "\<And>x. P x \<Longrightarrow> keeps Q (f x)"
  shows "keeps Q (bind m f)"
proof (rule keepsI)
  fix s :: cache_state assume c: "cache s = []"
  obtain res s' where ms: "m s = (res, s')" by (cases "m s")
  from keepsD [OF assms(1) c ms] have s': "s' = s" and P: "\<forall>x. res = Inr x \<longrightarrow> P x" by simp_all
  show "snd (bind m f s) = s"
  proof (cases res)
    case (Inl err) then show ?thesis using ms s' by (simp add: bind_def)
  next
    case (Inr x)
    then have "keeps Q (f x)" using P assms(2) by simp
    then show ?thesis using ms s' Inr c by (simp add: bind_def keeps_def)
  qed
  fix y assume r: "fst (bind m f s) = Inr y"
  show "Q y"
  proof (cases res)
    case (Inl err) then show ?thesis using ms r by (simp add: bind_def)
  next
    case (Inr x)
    then have "keeps Q (f x)" using P assms(2) by simp
    then show ?thesis using ms s' Inr c r by (simp add: bind_def keeps_def)
  qed
qed

lemma keeps_cached: "keeps P m \<Longrightarrow> keeps P (cached k m)"
  by (simp add: keeps_def cached_empty)

lemma keeps_create: "keeps well_formed (create n d)"
  by (rule keepsI) (auto simp: create_empty well_formed_ZERO well_formed_reduced split: if_splits)

lemma keeps_negated: "keeps well_formed (negated r)"
  by (simp add: negated_def keeps_create)

lemma keeps_abs_r: "well_formed r \<Longrightarrow> keeps well_formed (abs_r r)"
  by (simp add: abs_r_def keeps_negated keeps_return)

lemma keeps_inverted: "keeps well_formed (inverted r)"
  by (simp add: inverted_def keeps_create keeps_throw)

lemma keeps_add: "keeps well_formed (add a b)"
  by (simp add: add_def keeps_create Let_def)

lemma keeps_mul: "keeps well_formed (mul a b)"
  by (simp add: mul_def keeps_create)

lemma keeps_sub: "keeps well_formed (sub a b)"
  unfolding sub_def by (rule keeps_bind [OF keeps_negated]) (rule keeps_add)

lemma keeps_div_r: "keeps well_formed (div_r a b)"
  unfolding div_r_def by (rule keeps_bind [OF keeps_inverted]) (rule keeps_mul)

lemma keeps_fromDecimal: "keeps well_formed (fromDecimal d)"
  by (simp add: fromDecimal_def keeps_cached keeps_create)

lemma keeps_fromNumber: "keeps well_formed (fromNumber n)"
  by (simp add: fromNumber_def keeps_cached keeps_fromDecimal)

lemma keeps_R_of: "keeps well_formed (R_of x)"
  by (simp add: R_of_def keeps_fromNumber keeps_fromDecimal split: sum.splits)

lemma keeps_fromJson: "keeps well_formed (fromJson str)"
  unfolding fromJson_def Let_def
  by (intro keeps_cached keeps_bind [OF keeps_lift] keeps_create)

lemma keeps_fromString: "keeps well_formed (fromString str)"
  unfolding fromString_def Let_def
  by (intro keeps_cached keeps_bind [OF keeps_lift] keeps_bind [OF keeps_fromDecimal])
     (auto intro!: keeps_return keeps_bind [OF keeps_lift] keeps_bind [OF keeps_fromDecimal] keeps_div_r
           split: option.splits)

lemma keeps_reduce:
  assumes "\<And>acc x. keeps P (f acc x)" "P a"
  shows "keeps P (reduce f a xs)"
  using assms(2)
proof (induction xs arbitrary: a)
  case Nil then show ?case by (simp add: keeps_return)
next
  case (Cons x xs)
  show ?case unfolding reduce.simps
    by (rule keeps_bind [OF assms(1)]) (rule Cons.IH)
qed

lemma keeps_sum_r: "keeps well_formed (sum_r xs)"
  unfolding sum_r_def by (rule keeps_reduce) (simp_all add: keeps_add well_formed_ZERO)

lemma keeps_avg: "keeps well_formed (avg xs)"
  unfolding avg_def
  by (intro keeps_bind [OF keeps_sum_r] keeps_bind [OF keeps_R_of] keeps_div_r)

lemma foldl_pick: "P x \<Longrightarrow> \<forall>y\<in>set xs. P y \<Longrightarrow> P (foldl (\<lambda>a b. if c a b then a else b) x xs)"
  by (induction xs arbitrary: x) auto

lemma keeps_min_r: "\<forall>x\<in>set xs. well_formed x \<Longrightarrow> keeps well_formed (min_r xs)"
  by (cases xs) (auto simp: min_r_def keeps_throw intro!: keeps_return foldl_pick)

lemma keeps_max_r: "\<forall>x\<in>set xs. well_formed x \<Longrightarrow> keeps well_formed (max_r xs)"
  by (cases xs) (auto simp: max_r_def keeps_throw intro!: keeps_return foldl_pick)

lemma set_insert_cmp: "set (insert_cmp x ys) = insert x (set ys)"
  by (induction ys) auto

lemma mset_insert_cmp: "mset (insert_cmp x ys) = add_mset x (mset ys)"
  by (induction ys) auto

lemma mset_sort_cmp: "mset (sort_cmp xs) = mset xs"
  by (induction xs) (simp_all add: sort_cmp_def mset_insert_cmp)

lemma set_sort_cmp: "set (sort_cmp xs) = set xs"
  by (metis mset_sort_cmp set_mset_mset)

lemma length_sort_cmp: "length (sort_cmp xs) = length xs"
  by (metis mset_sort_cmp size_mset)

lemma keeps_median: "\<forall>x\<in>set xs. well_formed x \<Longrightarrow> keeps well_formed (median xs)"
proof -
  assume wf: "\<forall>x\<in>set xs. well_formed x"
  show ?thesis
  proof (cases "xs = []")
    case True then show ?thesis by (simp add: median_def keeps_throw)
  next
    case False
    then have "length xs div 2 < length xs" by simp
    then have "sort_cmp xs ! (length xs div 2) \<in> set xs"
      by (metis length_sort_cmp nth_mem set_sort_cmp)
    then show ?thesis using wf False
      by (simp add: median_def Let_def length_sort_cmp keeps_avg keeps_return)
  qed
qed

lemma keeps_roundByRational: "keeps well_formed (roundByRational a b m)"
  unfolding roundByRational_def
  by (intro keeps_bind [OF keeps_div_r] keeps_bind [OF keeps_lift] keeps_create)

lemma keeps_run_call: "\<forall>x\<in>operands c. well_formed x \<Longrightarrow> keeps well_formed (run_call c)"
  by (cases c)
     (simp_all add: keeps_fromJson keeps_fromString keeps_fromNumber keeps_fromDecimal
        keeps_min_r keeps_max_r keeps_sum_r keeps_avg keeps_median keeps_add keeps_sub
        keeps_mul keeps_div_r keeps_negated keeps_abs_r keeps_inverted keeps_roundByRational)

lemma reachable_invariant: "reachable s V \<Longrightarrow> cache s = [] \<and> (\<forall>r\<in>V. well_formed r)"
proof (induction rule: reachable.induct)
  case start
  show ?case by (simp add: initial_state_def well_formed_ZERO well_formed_ONE)
next
  case (step s V c res s')
  then have "keeps well_formed (run_call c)" by (auto intro: keeps_run_call)
  from keepsD [OF this _ step.hyps(3)] step.IH
  show ?case by (auto split: sum.splits)
qed

text \<open>The state of a run never leaves the initial state.\<close>

lemma reachable_state: "reachable s V \<Longrightarrow> s = initial_state"
proof (induction rule: reachable.induct)
  case start
  show ?case by simp
next
  case (step s V c res s')
  have "\<forall>x\<in>operands c. well_formed x"
    using reachable_invariant [OF step.hyps(1)] step.hyps(2) by auto
  then have "keeps well_formed (run_call c)" by (rule keeps_run_call)
  moreover have "cache s = []" using reachable_invariant [OF step.hyps(1)] by simp
  ultimately have "s' = s" using step.hyps(3) by (auto dest: keepsD)
  then show ?case using step.IH by simp
qed

section \<open>Printing and reading integers\<close>

subsection \<open>Digits\<close>

lemma digit_val_digit_char: "d < 10 \<Longrightarrow> digit_val 10 (digit_char d) = Some d"
proof -
  assume "d < 10"
  then consider "d = 0" | "d = 1" | "d = 2" | "d = 3" | "d = 4" | "d = 5" | "d = 6" | "d = 7"
    | "d = 8" | "d = 9" by atomize_elim arith
  then show ?thesis by cases (simp_all add: digit_val_def digit_char_def)
qed

lemma is_digit_digit_char: "is_digit (digit_char d)"
  using digit_val_digit_char [of "d mod 10"] by (simp add: is_digit_def digit_char_def)

lemma is_digit_cases: "is_digit c \<Longrightarrow> c \<in> set ''0123456789''"
  by (simp add: is_digit_def digit_val_def split: if_splits)

lemma digits_value_append:
  "digits_value r acc (xs @ ys) =
     (case digits_value r acc xs of None \<Rightarrow> None | Some a \<Rightarrow> digits_value r a ys)"
  by (induction xs arbitrary: acc) (auto split: option.splits)

lemma digits_value_toString_nat: "digits_value 10 0 (toString_nat n) = Some n"
proof (induction n rule: toString_nat.induct)
  case (1 n)
  show ?case
  proof (cases "n < 10")
    case True
    then show ?thesis by (subst toString_nat.simps) (simp add: digit_val_digit_char)
  next
    case False
    with 1 have "digits_value 10 0 (toString_nat (n div 10)) = Some (n div 10)" by simp
    then show ?thesis using False
      by (subst toString_nat.simps) (simp add: digits_value_append digit_val_digit_char)
  qed
qed

lemma is_digit_toString_nat: "c \<in> set (toString_nat n) \<Longrightarrow> is_digit c"
proof (induction n rule: toString_nat.induct)
  case (1 n)
  show ?case
  proof (cases "n < 10")
    case True
    then show ?thesis using "1.prems" by (subst (asm) toString_nat.simps) (simp add: is_digit_digit_char)
  next
    case False
    then show ?thesis using 1 
      by (subst (asm) toString_nat.simps) (auto simp: is_digit_digit_char)
  qed
qed

lemma toString_nat_nonempty: "toString_nat n \<noteq> []"
  by (subst toString_nat.simps) simp

lemma parse_digits_toString_nat: "parse_digits 10 (toString_nat n) = Inr (int n)"
  by (simp add: parse_digits_def toString_nat_nonempty digits_value_toString_nat)

lemma trim_id: "s \<noteq> [] \<Longrightarrow> \<forall>c\<in>set s. \<not> is_space c \<Longrightarrow> trim s = s"
proof -
  assume ne: "s \<noteq> []" and ns: "\<forall>c\<in>set s. \<not> is_space c"
  have 1: "dropWhile is_space s = s" using ne ns by (cases s) auto
  have 2: "dropWhile is_space (rev s) = rev s" using ne ns by (cases "rev s") auto
  show ?thesis by (simp add: trim_def 1 2)
qed

lemma is_digit_no_space: "is_digit c \<Longrightarrow> \<not> is_space c"
  by (drule is_digit_cases) (auto simp: is_space_def)

lemma toString_big_chars: "c \<in> set (toString_big i) \<Longrightarrow> c = CHR ''-'' \<or> is_digit c"
  by (auto simp: toString_big_def dest: is_digit_toString_nat split: if_splits)

lemma toString_big_nonempty: "toString_big i \<noteq> []"
  by (simp add: toString_big_def toString_nat_nonempty)

lemma toString_big_no_space: "c \<in> set (toString_big i) \<Longrightarrow> \<not> is_space c"
proof -
  assume "c \<in> set (toString_big i)"
  then have "c = CHR ''-'' \<or> is_digit c" by (rule toString_big_chars)
  moreover have "\<not> is_space (CHR ''-'')" by (simp add: is_space_def)
  ultimately show ?thesis by (auto dest: is_digit_no_space)
qed

lemma toString_big_no_slash: "CHR ''/'' \<notin> set (toString_big i)"
proof
  assume "CHR ''/'' \<in> set (toString_big i)"
  then have "is_digit (CHR ''/'')" by (auto dest: toString_big_chars)
  then show False by (simp add: is_digit_def digit_val_def)
qed

lemma BigInt_digits:
  assumes "\<forall>c\<in>set ds. is_digit c" "ds \<noteq> []"
  shows "BigInt (Some ds) = parse_digits 10 ds"
proof -
  have t: "trim ds = ds" using assms by (intro trim_id) (auto dest: is_digit_no_space)
  show ?thesis
  proof (cases ds)
    case Nil then show ?thesis using assms by simp
  next
    case (Cons c cs)
    show ?thesis
    proof (cases cs)
      case Nil then show ?thesis using Cons t by (simp add: BigInt_def)
    next
      case (Cons d ds')
      have "is_digit c" "is_digit d" using assms \<open>ds = c # cs\<close> Cons by auto
      then have "c \<noteq> CHR ''+''" "c \<noteq> CHR ''-''" "d \<noteq> CHR ''x''" "d \<noteq> CHR ''X''"
        "d \<noteq> CHR ''o''" "d \<noteq> CHR ''O''" "d \<noteq> CHR ''b''" "d \<noteq> CHR ''B''"
        by (auto dest!: is_digit_cases)
      then show ?thesis using Cons \<open>ds = c # cs\<close> t by (simp add: BigInt_def)
    qed
  qed
qed

lemma BigInt_minus_digits:
  assumes "\<forall>c\<in>set ds. is_digit c" "ds \<noteq> []"
  shows "BigInt (Some (CHR ''-'' # ds)) = map_sum id uminus (parse_digits 10 ds)"
proof -
  have m: "\<not> is_space (CHR ''-'')" by (simp add: is_space_def)
  have t: "trim (CHR ''-'' # ds) = CHR ''-'' # ds"
    using assms m by (intro trim_id) (auto dest: is_digit_no_space)
  obtain d ds' where ds: "ds = d # ds'" using assms by (cases ds) auto
  show ?thesis using t by (simp add: BigInt_def ds)
qed

lemma BigInt_toString_big: "BigInt (Some (toString_big i)) = Inr i"
proof (cases "i < 0")
  case True
  have "BigInt (Some (CHR ''-'' # toString_nat (nat (- i)))) =
        map_sum id uminus (parse_digits 10 (toString_nat (nat (- i))))"
    by (rule BigInt_minus_digits) (auto dest: is_digit_toString_nat simp: toString_nat_nonempty)
  then show ?thesis using True
    by (simp add: toString_big_def parse_digits_toString_nat)
next
  case False
  have "BigInt (Some (toString_nat (nat i))) = parse_digits 10 (toString_nat (nat i))"
    by (rule BigInt_digits) (auto dest: is_digit_toString_nat simp: toString_nat_nonempty)
  then show ?thesis using False
    by (simp add: toString_big_def parse_digits_toString_nat)
qed

subsection \<open>Splitting at the separator\<close>

lemma split_slash_nonempty: "split_slash s \<noteq> []"
  by (induction s) (auto split: list.splits)

lemma split_slash_none: "CHR ''/'' \<notin> set a \<Longrightarrow> split_slash a = [a]"
  by (induction a) auto

lemma split_slash_first: "CHR ''/'' \<notin> set a \<Longrightarrow> split_slash (a @ CHR ''/'' # b) = a # split_slash b"
  by (induction a) auto

section \<open>The values the operations return\<close>

lemma well_formed_pos: "well_formed r \<Longrightarrow> 0 < denominator r"
  by (simp add: well_formed_def canonical_def)

lemma value_of_ZERO: "value_of ZERO = 0"
  by (simp add: value_of_def ZERO_def rat_number_collapse)

lemma yields_create: "cache s = [] \<Longrightarrow> 0 < d \<Longrightarrow> yields (create n d) s (Fract n d)"
  by (auto simp: yields_def create_empty well_formed_ZERO well_formed_reduced value_of_reduced
      value_of_ZERO rat_number_collapse)

lemma yields_bind:
  assumes "yields m s v" and "\<And>r. well_formed r \<Longrightarrow> value_of r = v \<Longrightarrow> yields (f r) s w"
  shows "yields (bind m f) s w"
proof -
  from assms(1) obtain r where r: "m s = (Inr r, s)" "well_formed r" "value_of r = v"
    by (auto simp: yields_def)
  from assms(2) [OF r(2,3)] show ?thesis using r(1) by (simp add: yields_def bind_def)
qed

lemma yields_return: "well_formed r \<Longrightarrow> yields (return r) s (value_of r)"
  by (simp add: yields_def return_def)

lemma yields_add:
  assumes "cache s = []" "well_formed a" "well_formed b"
  shows "yields (add a b) s (value_of a + value_of b)"
proof -
  have p: "0 < denominator a" "0 < denominator b" using assms by (simp_all add: well_formed_pos)
  then have "yields (create (numerator a * denominator b + numerator b * denominator a)
     (denominator a * denominator b)) s
     (Fract (numerator a * denominator b + numerator b * denominator a) (denominator a * denominator b))"
    using assms(1) by (intro yields_create) simp_all
  then show ?thesis using p by (simp add: add_def Let_def value_of_def)
qed

lemma yields_mul:
  assumes "cache s = []" "well_formed a" "well_formed b"
  shows "yields (mul a b) s (value_of a * value_of b)"
proof -
  have p: "0 < denominator a" "0 < denominator b" using assms by (simp_all add: well_formed_pos)
  then have "yields (create (numerator a * numerator b) (denominator a * denominator b)) s
     (Fract (numerator a * numerator b) (denominator a * denominator b))"
    using assms(1) by (intro yields_create) simp_all
  then show ?thesis by (simp add: mul_def value_of_def)
qed

lemma yields_negated:
  assumes "cache s = []" "well_formed a"
  shows "yields (negated a) s (- value_of a)"
  using yields_create [OF assms(1) well_formed_pos [OF assms(2)], of "- numerator a"]
  by (simp add: negated_def value_of_def)

lemma yields_sub:
  assumes "cache s = []" "well_formed a" "well_formed b"
  shows "yields (sub a b) s (value_of a - value_of b)"
  unfolding sub_def
proof (rule yields_bind [OF yields_negated [OF assms(1,3)]])
  fix r assume r: "well_formed r" "value_of r = - value_of b"
  from yields_add [OF assms(1,2) r(1)] show "yields (add a r) s (value_of a - value_of b)"
    by (simp add: r(2))
qed

lemma inverted_nonzero:
  assumes "cache s = []" "well_formed a" "numerator a \<noteq> 0"
  shows "inverted a s =
    (Inr (new_Rational (sgn (numerator a) * denominator a) \<bar>numerator a\<bar>), s)"
proof -
  have d: "0 < denominator a" using assms by (simp add: well_formed_pos)
  have g: "gcd (numerator a) (denominator a) = 1" using assms by (simp add: well_formed_def canonical_def)
  have i: "ident a \<noteq> ZERO_instance" using assms by (simp add: well_formed_def)
  have g1: "gcd (denominator a) \<bar>numerator a\<bar> = 1" using g by (simp add: gcd.commute)
  have g2: "gcd (- denominator a) \<bar>numerator a\<bar> = 1" using g by (simp add: gcd.commute)
  show ?thesis
  proof (cases "numerator a < 0")
    case True
    then show ?thesis using d i g2 assms(1)
      by (simp add: inverted_def negative_def abs_big_def create_empty)
  next
    case False
    then have "0 < numerator a" using assms(3) by simp
    then show ?thesis using d i g1 assms(1)
      by (simp add: inverted_def negative_def abs_big_def create_empty)
  qed
qed

lemma inverted_zero: "ident a = ZERO_instance \<Longrightarrow> inverted a s = (Inl DivisionByZero, s)"
  by (simp add: inverted_def throw_def)

lemma well_formed_inverse:
  assumes "well_formed a" "numerator a \<noteq> 0"
  shows "well_formed (new_Rational (sgn (numerator a) * denominator a) \<bar>numerator a\<bar>)"
proof -
  have d: "0 < denominator a" using assms by (simp add: well_formed_pos)
  have g: "gcd (numerator a) (denominator a) = 1" using assms by (simp add: well_formed_def canonical_def)
  have "gcd (sgn (numerator a) * denominator a) (numerator a) = 1"
    using g assms(2) by (cases "numerator a < 0") (simp_all add: gcd.commute)
  then show ?thesis using d assms(2)
    by (simp add: well_formed_def canonical_def new_Rational_def sgn_if)
qed

lemma value_of_inverse:
  assumes "0 < denominator a" "numerator a \<noteq> 0"
  shows "value_of (new_Rational (sgn (numerator a) * denominator a) \<bar>numerator a\<bar>) = inverse (value_of a)"
proof (cases "numerator a < 0")
  case True
  have "Fract (- denominator a) (- numerator a) = Fract (denominator a) (numerator a)"
    by (rule minus_rat_cancel)
  then show ?thesis using True by (simp add: value_of_def new_Rational_def)
next
  case False
  then show ?thesis using assms by (simp add: value_of_def new_Rational_def)
qed

lemma yields_inverted:
  assumes "cache s = []" "well_formed a" "numerator a \<noteq> 0"
  shows "yields (inverted a) s (inverse (value_of a))"
  unfolding yields_def
  using inverted_nonzero [OF assms] well_formed_inverse [OF assms(2,3)]
        value_of_inverse [OF well_formed_pos [OF assms(2)] assms(3)]
  by blast

lemma yields_div_r:
  assumes "cache s = []" "well_formed a" "well_formed b" "numerator b \<noteq> 0"
  shows "yields (div_r a b) s (value_of a / value_of b)"
  unfolding div_r_def
proof (rule yields_bind [OF yields_inverted [OF assms(1,3,4)]])
  fix r assume r: "well_formed r" "value_of r = inverse (value_of b)"
  from yields_mul [OF assms(1,2) r(1)] show "yields (mul a r) s (value_of a / value_of b)"
    by (simp add: r(2) divide_inverse)
qed

lemma div_r_zero: "ident b = ZERO_instance \<Longrightarrow> div_r a b s = (Inl DivisionByZero, s)"
  by (simp add: div_r_def bind_def inverted_zero)

lemma e_big_nonneg: "0 \<le> n \<Longrightarrow> e_big a n m = a * 10 ^ nat n"
  by (simp add: e_big_def)

lemma yields_fromDecimal:
  assumes "cache s = []"
  shows "yields (fromDecimal d) s
     (Fract (significand d * 10 ^ nat (exponent d)) (10 ^ nat (- exponent d)))"
proof -
  have "yields (create (significand d * 10 ^ nat (exponent d)) (10 ^ nat (- exponent d))) s
     (Fract (significand d * 10 ^ nat (exponent d)) (10 ^ nat (- exponent d)))"
    using assms by (intro yields_create) simp_all
  moreover have "e_big (significand d) (if 0 < exponent d then exponent d else 0) toZero
      = significand d * 10 ^ nat (exponent d)"
    by (simp add: e_big_nonneg)
  moreover have "e_big 1 (if exponent d < 0 then - exponent d else 0) toZero = 10 ^ nat (- exponent d)"
    by (simp add: e_big_nonneg)
  ultimately show ?thesis using assms by (simp add: fromDecimal_def yields_def cached_empty)
qed

lemma yields_fromNumber: "cache s = [] \<Longrightarrow> yields (fromNumber n) s (of_int n)"
  using yields_fromDecimal [of s "D_number n"]
  by (simp add: fromNumber_def yields_def cached_empty D_number_def of_int_rat)

lemma fromNumber_zero: "cache s = [] \<Longrightarrow> fromNumber 0 s = (Inr ZERO, s)"
  by (simp add: fromNumber_def fromDecimal_def cached_empty D_number_def e_big_def create_empty)

lemma yields_reduce_add:
  assumes "cache s = []" "\<forall>x\<in>set xs. well_formed x" "well_formed a"
  shows "yields (reduce (\<lambda>result rational. add result rational) a xs) s
           (value_of a + sum_list (map value_of xs))"
  using assms(2,3)
proof (induction xs arbitrary: a)
  case Nil
  then show ?case using yields_return [of a s] by simp
next
  case (Cons x xs)
  have "yields (add a x) s (value_of a + value_of x)"
    using Cons.prems assms(1) by (intro yields_add) simp_all
  then show ?case unfolding reduce.simps
  proof (rule yields_bind)
    fix r assume "well_formed r" "value_of r = value_of a + value_of x"
    then show "yields (reduce add r xs) s (value_of a + sum_list (map value_of (x # xs)))"
      using Cons.IH [of r] Cons.prems by (simp add: add.assoc)
  qed
qed

lemma yields_sum_r:
  assumes "cache s = []" "\<forall>x\<in>set xs. well_formed x"
  shows "yields (sum_r xs) s (sum_list (map value_of xs))"
  using yields_reduce_add [OF assms well_formed_ZERO] by (simp add: sum_r_def value_of_ZERO)

lemma sum_r_empty: "sum_r [] s = (Inr ZERO, s)"
  by (simp add: sum_r_def return_def)

lemma yields_avg:
  assumes "cache s = []" "\<forall>x\<in>set xs. well_formed x" "xs \<noteq> []"
  shows "yields (avg xs) s (sum_list (map value_of xs) / of_nat (length xs))"
  unfolding avg_def
proof (rule yields_bind [OF yields_sum_r [OF assms(1,2)]])
  fix t assume t: "well_formed t" "value_of t = sum_list (map value_of xs)"
  have "yields (fromNumber (int (length xs))) s (of_int (int (length xs)))"
    using assms(1) by (rule yields_fromNumber)
  then show "yields (bind (R_of (Inl (int (length xs)))) (div_r t)) s
     (sum_list (map value_of xs) / of_nat (length xs))"
    unfolding R_of_def sum.case
  proof (rule yields_bind)
    fix c assume c: "well_formed c" "value_of c = of_int (int (length xs))"
    have "value_of c \<noteq> 0" using c(2) assms(3) by simp
    then have "numerator c \<noteq> 0" by (auto simp: value_of_def rat_number_collapse)
    from yields_div_r [OF assms(1) t(1) c(1) this]
    show "yields (div_r t c) s (sum_list (map value_of xs) / of_nat (length xs))"
      using t(2) c(2) by simp
  qed
qed

lemma value_less_iff:
  assumes "0 < denominator a" "0 < denominator b"
  shows "value_of a < value_of b \<longleftrightarrow> numerator a * denominator b < numerator b * denominator a"
proof -
  have "0 < denominator a * denominator b" using assms by simp
  then show ?thesis using assms
    by (simp add: value_of_def mult_less_cancel_right_pos)
qed

lemma value_eq_iff:
  assumes "0 < denominator a" "0 < denominator b"
  shows "value_of a = value_of b \<longleftrightarrow> numerator a * denominator b = numerator b * denominator a"
  using assms by (simp add: value_of_def eq_rat)

lemma cmp_cross:
  assumes "0 < denominator a" "0 < denominator b"
  shows "cmp a b =
     (if numerator a * denominator b < numerator b * denominator a then - 1
      else if numerator a * denominator b = numerator b * denominator a then 0 else 1)"
proof (cases "negative a = negative b")
  case True
  then show ?thesis by (auto simp: cmp_def Let_def)
next
  case False
  show ?thesis
  proof (cases "negative a")
    case True
    then have "numerator a * denominator b < 0" "0 \<le> numerator b * denominator a"
      using False assms by (simp_all add: negative_def mult_less_0_iff zero_le_mult_iff)
    then show ?thesis using True False by (simp add: cmp_def)
  next
    case nn: False
    then have "0 \<le> numerator a * denominator b" "numerator b * denominator a < 0"
      using False assms by (simp_all add: negative_def mult_less_0_iff zero_le_mult_iff)
    then show ?thesis using nn False by (simp add: cmp_def)
  qed
qed

lemma cmp_by_value:
  assumes "0 < denominator a" "0 < denominator b"
  shows "cmp a b = (if value_of a < value_of b then - 1 else if value_of a = value_of b then 0 else 1)"
  by (simp add: cmp_cross [OF assms] value_less_iff [OF assms] value_eq_iff [OF assms])

section \<open>Comparison is exact\<close>

text \<open>
  Claim C8. For rationals with positive denominators, \<^verbatim>\<open>cmp\<close> returns \<open>-1\<close>, \<open>0\<close> or \<open>1\<close>
  according as the exact value of the first is less than, equal to or greater than the
  exact value of the second; when the signs differ the negative one is the smaller; and
  \<^verbatim>\<open>eq\<close> holds exactly when the two denote the same rational number, reduced or not.
\<close>

theorem cmp_exact:
  assumes "0 < denominator a" "0 < denominator b"
  shows "cmp a b = (if value_of a < value_of b then - 1 else if value_of a = value_of b then 0 else 1)
       \<and> (negative a \<noteq> negative b \<longrightarrow> cmp a b = (if negative a then - 1 else 1))
       \<and> (eq_r a b \<longleftrightarrow> value_of a = value_of b)"
  using cmp_by_value [OF assms] by (auto simp: eq_r_def cmp_def)

text \<open>
  Claim C8 at concrete inputs: \<open>-1/2 < 2/6\<close>, and the unreduced \<open>2/4\<close> equals \<open>1/2\<close>.
\<close>

theorem cmp_exact_witness:
  "cmp (new_Rational (- 1) 2) (new_Rational 2 6) = - 1
   \<and> value_of (new_Rational (- 1) 2) < value_of (new_Rational 2 6)
   \<and> eq_r (new_Rational 1 2) \<lparr>ident = Allocated, numerator = 2, denominator = 4\<rparr>
   \<and> value_of (new_Rational 1 2) = value_of \<lparr>ident = Allocated, numerator = 2, denominator = 4\<rparr>"
proof -
  have 1: "0 < denominator (new_Rational (- 1) 2)" "0 < denominator (new_Rational 2 6)"
          "0 < denominator (new_Rational 1 2)"
          "0 < denominator \<lparr>ident = Allocated, numerator = 2, denominator = 4\<rparr>"
    by (simp_all add: new_Rational_def)
  have 2: "cmp (new_Rational (- 1) 2) (new_Rational 2 6) = - 1"
    by (simp add: cmp_def new_Rational_def negative_def)
  have 3: "eq_r (new_Rational 1 2) \<lparr>ident = Allocated, numerator = 2, denominator = 4\<rparr>"
    by (simp add: eq_r_def cmp_def new_Rational_def negative_def)
  from cmp_exact [OF 1(1,2)] cmp_exact [OF 1(3,4)] 2 3 show ?thesis
    by (auto split: if_splits)
qed

section \<open>The denominator check of \<^verbatim>\<open>create\<close>\<close>

text \<open>
  Claim C3 as stated fails for the numerator zero: the test of the denominator (line 142)
  sits inside the branch for a nonzero numerator (line 141), so \<^verbatim>\<open>create(0, 0)\<close> returns
  \<^verbatim>\<open>Rational.ZERO\<close> and does not fail.
\<close>

theorem create_zero_numerator_counterexample:
  "fst (create 0 0 initial_state) = Inr ZERO \<and> fst (create 0 0 initial_state) \<noteq> Inl InvalidOperand"
  by (simp add: create_def return_def)

text \<open>
  Claim C3, amended. For every state and every denominator \<open>d \<le> 0\<close>, \<^verbatim>\<open>create\<close> fails with
  \<^const>\<open>InvalidOperand\<close> when the numerator is not zero, and returns \<^verbatim>\<open>Rational.ZERO\<close>
  when the numerator is zero; the state is left as it was.
\<close>

theorem create_invalid_denominator:
  "d \<le> 0 \<Longrightarrow> create n d s = (if n = 0 then (Inr ZERO, s) else (Inl InvalidOperand, s))"
  by (simp add: create_def return_def throw_def)

text \<open>Claim C3, amended, at the denominators \<open>0\<close> and \<open>-2\<close>.\<close>

theorem create_invalid_denominator_witness:
  "(0::int) \<le> 0 \<and> create 5 0 initial_state = (Inl InvalidOperand, initial_state)
   \<and> create (- 3) (- 2) initial_state = (Inl InvalidOperand, initial_state)
   \<and> create 0 (- 2) initial_state = (Inr ZERO, initial_state)"
  using create_invalid_denominator [of 0 5 initial_state]
        create_invalid_denominator [of "- 2" "- 3" initial_state]
        create_invalid_denominator [of "- 2" 0 initial_state]
  by simp

section \<open>Inversion\<close>

text \<open>
  Claim C4. For a well-formed rational \<open>a\<close> and an empty cache: if \<open>a\<close> is zero, \<^verbatim>\<open>a.inverted\<close>
  fails with \<^const>\<open>DivisionByZero\<close> and so does \<^verbatim>\<open>x.div(a)\<close> for every \<open>x\<close>; if \<open>a\<close> is not
  zero, \<^verbatim>\<open>a.inverted\<close> returns the rational with numerator \<open>sgn(a.num) * a.den\<close> and
  denominator \<open>|a.num|\<close>. The state is unchanged in each case.
\<close>

theorem inverted_spec:
  assumes "well_formed a" "cache s = []"
  shows "(numerator a = 0 \<longrightarrow>
            inverted a s = (Inl DivisionByZero, s) \<and> (\<forall>x. div_r x a s = (Inl DivisionByZero, s)))
       \<and> (numerator a \<noteq> 0 \<longrightarrow>
            inverted a s = (Inr (new_Rational (sgn (numerator a) * denominator a) \<bar>numerator a\<bar>), s))"
  using assms inverted_nonzero [OF assms(2,1)]
  by (auto simp: well_formed_def inverted_zero div_r_zero)

text \<open>Claim C4 at \<^verbatim>\<open>ZERO\<close> and at \<open>-5/3\<close>, whose inverse is \<open>-3/5\<close>.\<close>

theorem inverted_spec_witness:
  "well_formed ZERO \<and> well_formed (new_Rational (- 5) 3) \<and> cache initial_state = []
   \<and> inverted ZERO initial_state = (Inl DivisionByZero, initial_state)
   \<and> div_r ONE ZERO initial_state = (Inl DivisionByZero, initial_state)
   \<and> inverted (new_Rational (- 5) 3) initial_state = (Inr (new_Rational (- 3) 5), initial_state)"
proof -
  have z: "well_formed ZERO" by (rule well_formed_ZERO)
  have w: "well_formed (new_Rational (- 5) 3)"
    by code_simp
  have c: "cache initial_state = []" by (simp add: initial_state_def)
  from inverted_spec [OF z c] inverted_spec [OF w c] z w c show ?thesis
    by (simp add: ZERO_def new_Rational_def)
qed

section \<open>The average of nothing\<close>

text \<open>
  Claim C9. With an empty cache, \<^verbatim>\<open>avg()\<close> fails with \<^const>\<open>DivisionByZero\<close>: the sum of
  no arguments is \<^verbatim>\<open>ZERO\<close>, the rational of the count \<open>0\<close> is \<^verbatim>\<open>ZERO\<close> as well, and
  inverting it throws.
\<close>

theorem avg_empty:
  "cache s = [] \<Longrightarrow>
     sum_r [] s = (Inr ZERO, s) \<and> R_of (Inl (int (length ([] :: Rational list)))) s = (Inr ZERO, s)
     \<and> inverted ZERO s = (Inl DivisionByZero, s)
     \<and> avg [] s = (Inl DivisionByZero, s)"
  by (simp add: avg_def bind_def sum_r_empty R_of_def fromNumber_zero div_r_zero inverted_zero ZERO_def)

text \<open>Claim C9 in the initial state; the error is not \<^const>\<open>EmptyInput\<close>.\<close>

theorem avg_empty_witness:
  "cache initial_state = [] \<and> avg [] initial_state = (Inl DivisionByZero, initial_state)
   \<and> fst (avg [] initial_state) \<noteq> Inl EmptyInput"
proof -
  have c: "cache initial_state = []" by (simp add: initial_state_def)
  from avg_empty [OF c] c show ?thesis by simp
qed

section \<open>A trailing slash in \<^verbatim>\<open>fromString\<close>\<close>

lemma fromString_single:
  assumes "cache s = []" "CHR ''/'' \<notin> set str"
  shows "fromString str s = bind (lift (Decimal_fromString str)) fromDecimal s"
proof -
  have "split_slash str = [str]" using assms(2) by (rule split_slash_none)
  then show ?thesis using assms(1)
    by (cases "Decimal_fromString str")
       (auto simp: fromString_def cached_empty first_part_def second_part_def bind_def lift_def
         return_def split: prod.splits sum.splits)
qed

lemma fromString_trailing:
  assumes "cache s = []" "CHR ''/'' \<notin> set str"
  shows "fromString (str @ ''/'') s = bind (lift (Decimal_fromString str)) fromDecimal s"
proof -
  have "split_slash (str @ CHR ''/'' # []) = str # split_slash []"
    using assms(2) by (rule split_slash_first)
  then have "split_slash (str @ ''/'') = [str, []]" by simp
  then show ?thesis using assms(1)
    by (cases "Decimal_fromString str")
       (auto simp: fromString_def cached_empty first_part_def second_part_def bind_def lift_def
         return_def split: prod.splits sum.splits)
qed

text \<open>
  Claim C10. With an empty cache, for a text \<open>str\<close> without \<^verbatim>\<open>/\<close> that the decimal parser
  accepts as \<open>d\<close>, \<^verbatim>\<open>fromString\<close> of \<open>str\<close> followed by \<^verbatim>\<open>/\<close> does not fail: it returns
  what \<^verbatim>\<open>fromDecimal(d)\<close> returns, which is what \<^verbatim>\<open>fromString(str)\<close> returns, a rational
  whose value is the number \<open>d\<close> denotes.
\<close>

theorem fromString_trailing_slash:
  assumes "cache s = []" "CHR ''/'' \<notin> set str" "Decimal_fromString str = Inr d"
  shows "fromString (str @ ''/'') s = fromDecimal d s
       \<and> fromString (str @ ''/'') s = fromString str s
       \<and> (\<exists>r. fromString (str @ ''/'') s = (Inr r, s)
              \<and> value_of r = Fract (significand d * 10 ^ nat (exponent d)) (10 ^ nat (- exponent d)))"
proof -
  have 1: "fromString (str @ ''/'') s = fromDecimal d s"
    using fromString_trailing [OF assms(1,2)] assms(3) by (simp add: bind_def lift_def)
  have 2: "fromString str s = fromDecimal d s"
    using fromString_single [OF assms(1,2)] assms(3) by (simp add: bind_def lift_def)
  show ?thesis using 1 2 yields_fromDecimal [OF assms(1), of d] by (auto simp: yields_def)
qed

lemma Decimal_fromString_1: "Decimal_fromString ''1'' = Inr \<lparr>significand = 1, exponent = 0\<rparr>"
  by code_simp

text \<open>Claim C10 at the input \<^verbatim>\<open>1/\<close>, which yields \<open>1/1\<close>.\<close>

theorem fromString_trailing_slash_witness:
  "cache initial_state = [] \<and> CHR ''/'' \<notin> set ''1''
   \<and> Decimal_fromString ''1'' = Inr \<lparr>significand = 1, exponent = 0\<rparr>
   \<and> fromString ''1/'' initial_state = fromString ''1'' initial_state
   \<and> fromString ''1/'' initial_state = (Inr (new_Rational 1 1), initial_state)"
proof -
  have c: "cache initial_state = []" by (simp add: initial_state_def)
  have n: "CHR ''/'' \<notin> set ''1''" by simp
  have v: "fromDecimal \<lparr>significand = 1, exponent = 0\<rparr> initial_state = (Inr (new_Rational 1 1), initial_state)"
    using c by (simp add: fromDecimal_def cached_empty e_big_def create_empty)
  note t = fromString_trailing_slash [OF c n Decimal_fromString_1, unfolded append_Cons append_Nil]
  have a: "fromString ''1/'' initial_state = fromDecimal \<lparr>significand = 1, exponent = 0\<rparr> initial_state"
    using t by blast
  have b: "fromString ''1/'' initial_state = fromString ''1'' initial_state"
    using t by blast
  have e: "fromString ''1/'' initial_state = (Inr (new_Rational 1 1), initial_state)"
    using a v by simp
  show ?thesis using c Decimal_fromString_1 b e by simp
qed

section \<open>The JSON form\<close>

text \<open>
  What \<^verbatim>\<open>fromJson\<close> does with a text of two pieces: each piece goes to \<^verbatim>\<open>BigInt\<close>, the
  first one first, and the two integers go to \<^verbatim>\<open>create\<close>.
\<close>

lemma fromJson_two_pieces:
  assumes "cache s = []" "CHR ''/'' \<notin> set a" "CHR ''/'' \<notin> set b"
  shows "fromJson (a @ CHR ''/'' # b) s =
           (case BigInt (Some a) of
              Inl err \<Rightarrow> (Inl err, s)
            | Inr n \<Rightarrow> (case BigInt (Some b) of
                         Inl err \<Rightarrow> (Inl err, s)
                       | Inr d \<Rightarrow> create n d s))"
proof -
  have "split_slash (a @ CHR ''/'' # b) = [a, b]"
    using assms(2,3) by (simp add: split_slash_first split_slash_none)
  then show ?thesis using assms(1)
    by (simp add: fromJson_def cached_empty first_part_def second_part_def bind_def lift_def Let_def
          split: sum.splits)
qed

lemma fromJson_printed:
  assumes "cache s = []"
  shows "fromJson (toString_big n @ CHR ''/'' # toString_big d) s = create n d s"
  using fromJson_two_pieces [OF assms toString_big_no_slash toString_big_no_slash, of n d]
  by (simp add: BigInt_toString_big)

lemma fromJson_one_piece:
  assumes "cache s = []" "CHR ''/'' \<notin> set a"
  shows "\<exists>err. fromJson a s = (Inl err, s)"
proof -
  have "split_slash a = [a]" using assms(2) by (rule split_slash_none)
  then show ?thesis using assms(1)
    by (cases "BigInt (Some a)")
       (simp_all add: fromJson_def cached_empty first_part_def second_part_def BigInt_def
          bind_def lift_def Let_def)
qed

text \<open>Only the first two pieces are read: a third piece and what follows are ignored.\<close>

lemma fromJson_ignores_third:
  assumes "cache s = []" "CHR ''/'' \<notin> set a" "CHR ''/'' \<notin> set b"
  shows "fromJson (a @ CHR ''/'' # b @ CHR ''/'' # rest) s = fromJson (a @ CHR ''/'' # b) s"
proof -
  have "split_slash (a @ CHR ''/'' # b @ CHR ''/'' # rest) = a # b # split_slash rest"
    using assms(2,3) by (simp add: split_slash_first)
  moreover have "split_slash (a @ CHR ''/'' # b) = [a, b]"
    using assms(2,3) by (simp add: split_slash_first split_slash_none)
  ultimately show ?thesis using assms(1)
    by (simp add: fromJson_def cached_empty first_part_def second_part_def Let_def)
qed

lemma create_canonical_same:
  assumes "cache s = []" "canonical x"
  shows "\<exists>y. create (numerator x) (denominator x) s = (Inr y, s) \<and> same_fraction y x"
proof (cases "numerator x = 0")
  case True
  then have "denominator x = 1" using assms(2) by (auto simp: canonical_def)
  then show ?thesis using True assms(1) by (simp add: create_empty same_fraction_def ZERO_def)
next
  case False
  have "0 < denominator x" using assms(2) by (simp add: canonical_def)
  moreover have "gcd (numerator x) (denominator x) = 1"
    using assms(2) by (simp add: canonical_def)
  ultimately show ?thesis using False assms(1)
    by (simp add: create_empty same_fraction_def new_Rational_def)
qed

text \<open>
  Claim C2 as stated fails in its last clause: \<^verbatim>\<open>fromJson\<close> does not insist on exactly two
  integers separated by \<^verbatim>\<open>/\<close>. It destructures the first two pieces of the split
  (line 62) and hands them to \<^verbatim>\<open>BigInt\<close> (line 63), so a third piece is ignored, an empty
  piece is read as \<open>0\<close>, and white space and radix prefixes are accepted: \<^verbatim>\<open>"1/2/3"\<close> yields
  \<open>1/2\<close>, \<^verbatim>\<open>"/"\<close> yields \<^verbatim>\<open>ZERO\<close>, \<^verbatim>\<open>" 2 / 4 "\<close> yields \<open>1/2\<close> and \<^verbatim>\<open>"0x10/0b100"\<close> yields
  \<open>4/1\<close>.
\<close>

theorem fromJson_not_strict_counterexample:
  "fst (fromJson ''1/2/3'' initial_state) = Inr (new_Rational 1 2)
   \<and> fst (fromJson ''/'' initial_state) = Inr ZERO
   \<and> fst (fromJson '' 2 / 4 '' initial_state) = Inr (new_Rational 1 2)
   \<and> fst (fromJson ''0x10/0b100'' initial_state) = Inr (new_Rational 4 1)"
  by code_simp

text \<open>
  Claim C2, amended. \<^verbatim>\<open>json\<close> prints the numerator, \<^verbatim>\<open>/\<close> and the denominator, whatever
  the denominator is. With an empty cache, for every canonical \<open>x\<close> the call
  \<^verbatim>\<open>fromJson(x.json)\<close> returns a rational with the numerator and the denominator of \<open>x\<close>.
  \<^verbatim>\<open>fromJson\<close> reads the first two pieces of its input, split at \<^verbatim>\<open>/\<close>, each with
  \<^verbatim>\<open>BigInt\<close>, and passes the two integers to \<^verbatim>\<open>create\<close>: two printed integers give
  \<^verbatim>\<open>create\<close> of them, a text without \<^verbatim>\<open>/\<close> fails, and a third piece with all that follows
  is ignored.
\<close>

theorem json_roundtrip:
  assumes "canonical x" "cache s = []"
  shows "json x = toString_big (numerator x) @ ''/'' @ toString_big (denominator x)
       \<and> (\<exists>y. fromJson (json x) s = (Inr y, s) \<and> same_fraction y x)
       \<and> (\<forall>n d. fromJson (toString_big n @ ''/'' @ toString_big d) s = create n d s)
       \<and> (\<forall>a b. CHR ''/'' \<notin> set a \<longrightarrow> CHR ''/'' \<notin> set b \<longrightarrow>
             fromJson (a @ ''/'' @ b) s =
               (case BigInt (Some a) of
                  Inl err \<Rightarrow> (Inl err, s)
                | Inr n \<Rightarrow> (case BigInt (Some b) of
                             Inl err \<Rightarrow> (Inl err, s)
                           | Inr d \<Rightarrow> create n d s)))
       \<and> (\<forall>a b rest. CHR ''/'' \<notin> set a \<longrightarrow> CHR ''/'' \<notin> set b \<longrightarrow>
             fromJson (a @ ''/'' @ b @ ''/'' @ rest) s = fromJson (a @ ''/'' @ b) s)
       \<and> (\<forall>a. CHR ''/'' \<notin> set a \<longrightarrow> (\<exists>err. fromJson a s = (Inl err, s)))"
proof -
  have a: "json x = toString_big (numerator x) @ CHR ''/'' # toString_big (denominator x)"
    by (simp add: json_def)
  have b: "fromJson (toString_big n @ CHR ''/'' # toString_big d) s = create n d s" for n d
    using assms(2) by (rule fromJson_printed)
  have c: "\<exists>y. fromJson (json x) s = (Inr y, s) \<and> same_fraction y x"
    using create_canonical_same [OF assms(2,1)] by (simp add: a b)
  have d: "\<forall>a b. CHR ''/'' \<notin> set a \<longrightarrow> CHR ''/'' \<notin> set b \<longrightarrow>
             fromJson (a @ CHR ''/'' # b) s =
               (case BigInt (Some a) of
                  Inl err \<Rightarrow> (Inl err, s)
                | Inr n \<Rightarrow> (case BigInt (Some b) of
                             Inl err \<Rightarrow> (Inl err, s)
                           | Inr d \<Rightarrow> create n d s))"
    using fromJson_two_pieces [OF assms(2)] by blast
  have e: "\<forall>a b rest. CHR ''/'' \<notin> set a \<longrightarrow> CHR ''/'' \<notin> set b \<longrightarrow>
             fromJson (a @ CHR ''/'' # b @ CHR ''/'' # rest) s = fromJson (a @ CHR ''/'' # b) s"
    using fromJson_ignores_third [OF assms(2)] by blast
  have f: "\<forall>a. CHR ''/'' \<notin> set a \<longrightarrow> (\<exists>err. fromJson a s = (Inl err, s))"
    using fromJson_one_piece [OF assms(2)] by blast
  have g: "\<forall>n d. fromJson (toString_big n @ CHR ''/'' # toString_big d) s = create n d s"
    using b by blast
  show ?thesis unfolding append_Cons append_Nil using a c g d e f by blast
qed

text \<open>
  Claim C2, amended, at \<open>-7/3\<close> and at \<^verbatim>\<open>ONE\<close>, whose JSON form \<^verbatim>\<open>1/1\<close> keeps the
  denominator, and at the text \<^verbatim>\<open>1/2/3\<close>, which is read as \<^verbatim>\<open>1/2\<close>.
\<close>

theorem json_roundtrip_witness:
  "canonical (new_Rational (- 7) 3) \<and> canonical ONE \<and> cache initial_state = []
   \<and> json (new_Rational (- 7) 3) = ''-7/3'' \<and> json ONE = ''1/1''
   \<and> (\<exists>y. fromJson ''-7/3'' initial_state = (Inr y, initial_state)
          \<and> same_fraction y (new_Rational (- 7) 3))
   \<and> (\<exists>y. fromJson ''1/1'' initial_state = (Inr y, initial_state) \<and> same_fraction y ONE)
   \<and> fromJson ''1/2/3'' initial_state = fromJson ''1/2'' initial_state"
proof -
  have w: "canonical (new_Rational (- 7) 3)" by code_simp
  have o: "canonical ONE" by code_simp
  have c: "cache initial_state = []" by (simp add: initial_state_def)
  have j: "json (new_Rational (- 7) 3) = ''-7/3''" "json ONE = ''1/1''" by code_simp+
  have "\<exists>y. fromJson (json (new_Rational (- 7) 3)) initial_state = (Inr y, initial_state)
          \<and> same_fraction y (new_Rational (- 7) 3)"
    using json_roundtrip [OF w c] by blast
  moreover have "\<exists>y. fromJson (json ONE) initial_state = (Inr y, initial_state) \<and> same_fraction y ONE"
    using json_roundtrip [OF o c] by blast
  moreover have "fromJson ''1/2/3'' initial_state = fromJson ''1/2'' initial_state"
  proof -
    have t: "\<forall>a b rest. CHR ''/'' \<notin> set a \<longrightarrow> CHR ''/'' \<notin> set b \<longrightarrow>
             fromJson (a @ ''/'' @ b @ ''/'' @ rest) initial_state = fromJson (a @ ''/'' @ b) initial_state"
      using json_roundtrip [OF o c] by blast
    have n: "CHR ''/'' \<notin> set ''1''" "CHR ''/'' \<notin> set ''2''" by simp_all
    from t n have "fromJson (''1'' @ ''/'' @ ''2'' @ ''/'' @ ''3'') initial_state
               = fromJson (''1'' @ ''/'' @ ''2'') initial_state"
      by blast
    then show ?thesis by simp
  qed
  ultimately show ?thesis using w o c j by simp
qed

section \<open>The cache insertion\<close>

lemma map_of_Map_set: "map_of (Map_set m k v) k = Some v"
  by (induction m k v rule: Map_set.induct) auto

text \<open>
  The statements after the \<^verbatim>\<open>return\<close> of \<^verbatim>\<open>addToCache\<close> would store the entry: a lookup of
  the key after them finds the rational.
\<close>

lemma addToCache_unreachable_stores:
  "fst (getFromCache k (addToCache_unreachable r k s)) = Some r"
  by (simp add: getFromCache_def addToCache_unreachable_def Map_get_def map_of_Map_set Let_def)

text \<open>
  Claim C5 does not hold of the code: \<^verbatim>\<open>addToCache\<close> returns at its first statement
  (line 28), so it leaves both maps as they were, and a lookup of the key after the
  insertion of \<open>1/2\<close> under \<^verbatim>\<open>"1/2"\<close> into the empty cache finds nothing.
\<close>

theorem addToCache_stores_nothing:
  "addToCache r k s = s
   \<and> getFromCache (KString ''1/2'') (addToCache (new_Rational 1 2) (KString ''1/2'') initial_state)
       = (None, initial_state)"
  by (simp add: addToCache_def getFromCache_def Map_get_def initial_state_def)

section \<open>Canonical form of every value of a run\<close>

lemma value_of_zero_iff: "0 < denominator r \<Longrightarrow> value_of r = 0 \<longleftrightarrow> numerator r = 0"
  by (simp add: value_of_def Zero_rat_def eq_rat)

lemma value_of_one_iff: "0 < denominator r \<Longrightarrow> value_of r = 1 \<longleftrightarrow> numerator r = denominator r"
  by (simp add: value_of_def One_rat_def eq_rat)

lemma well_formed_one:
  assumes "well_formed r" "value_of r = 1"
  shows "same_fraction r ONE"
proof -
  have d: "0 < denominator r" using assms(1) by (rule well_formed_pos)
  then have e: "numerator r = denominator r" using assms(2) by (simp add: value_of_one_iff)
  have "gcd \<bar>numerator r\<bar> (denominator r) = 1" using assms(1) by (simp add: well_formed_def canonical_def)
  then have "denominator r = 1" using e d by simp
  then show ?thesis using e by (simp add: same_fraction_def ONE_def)
qed

text \<open>
  Claim C1 as stated fails for the value one: \<^verbatim>\<open>create\<close> returns the instance
  \<^verbatim>\<open>Rational.ZERO\<close> for a zero numerator (line 156) but has no such branch for one, so
  \<^verbatim>\<open>fromJson("1/1")\<close> allocates a new object with numerator and denominator \<open>1\<close>, which
  is not the instance \<^verbatim>\<open>Rational.ONE\<close>.
\<close>

theorem one_not_singleton_counterexample:
  "fst (fromJson ''1/1'' initial_state) = Inr (new_Rational 1 1)
   \<and> value_of (new_Rational 1 1) = 1
   \<and> new_Rational 1 1 \<noteq> ONE"
proof -
  have c: "cache initial_state = []" by (simp add: initial_state_def)
  have "fromJson (toString_big 1 @ CHR ''/'' # toString_big 1) initial_state = create 1 1 initial_state"
    using c by (rule fromJson_printed)
  moreover have "toString_big 1 = ''1''" by code_simp
  ultimately have "fst (fromJson ''1/1'' initial_state) = Inr (new_Rational 1 1)"
    using c by (simp add: create_empty)
  moreover have "value_of (new_Rational 1 1) = 1"
    by (simp add: value_of_one_iff new_Rational_def)
  ultimately show ?thesis by (simp add: new_Rational_def ONE_def)
qed

text \<open>
  Claim C1, amended. In every run of a program that starts from the initial state and
  calls public operations on the objects it holds, every object held is in canonical
  form (\<open>gcd(|numerator|, denominator) = 1\<close> and \<open>denominator \<ge> 1\<close>); an object of value zero
  is the instance \<^verbatim>\<open>ZERO\<close> (numerator \<open>0\<close>, denominator \<open>1\<close>); an object of value one has
  numerator \<open>1\<close> and denominator \<open>1\<close>, as \<^verbatim>\<open>ONE\<close> has.
\<close>

theorem reachable_canonical:
  assumes "reachable s V" "r \<in> V"
  shows "canonical r \<and> (value_of r = 0 \<longrightarrow> r = ZERO) \<and> (value_of r = 1 \<longrightarrow> same_fraction r ONE)"
proof -
  have w: "well_formed r" using reachable_invariant [OF assms(1)] assms(2) by simp
  then have "value_of r = 0 \<longrightarrow> r = ZERO"
    using well_formed_zero_iff [OF w] value_of_zero_iff [OF well_formed_pos [OF w]] by simp
  then show ?thesis using w well_formed_one [OF w] by (simp add: well_formed_def)
qed

text \<open>
  Claim C1, amended, in the run that calls \<^verbatim>\<open>fromJson("2/4")\<close> and then holds \<open>1/2\<close>
  beside the two static instances.
\<close>

theorem reachable_canonical_witness:
  "reachable initial_state (insert (new_Rational 1 2) {ZERO, ONE})
   \<and> new_Rational 1 2 \<in> insert (new_Rational 1 2) {ZERO, ONE}
   \<and> ZERO \<in> insert (new_Rational 1 2) {ZERO, ONE}
   \<and> canonical (new_Rational 1 2) \<and> canonical ZERO \<and> value_of ZERO = 0"
proof -
  have c: "cache initial_state = []" by (simp add: initial_state_def)
  have "fromJson (toString_big 2 @ CHR ''/'' # toString_big 4) initial_state = create 2 4 initial_state"
    using c by (rule fromJson_printed)
  moreover have "toString_big 2 = ''2''" "toString_big 4 = ''4''" by code_simp+
  moreover have "gcd (2::int) 4 = 2" by code_simp
  ultimately have "run_call (FromJson ''2/4'') initial_state = (Inr (new_Rational 1 2), initial_state)"
    using c by (simp add: create_empty)
  from reachable.step [OF reachable.start _ this]
  have r: "reachable initial_state (insert (new_Rational 1 2) {ZERO, ONE})" by simp
  from reachable_canonical [OF r, of "new_Rational 1 2"] reachable_canonical [OF r, of ZERO] r
  show ?thesis by (simp add: value_of_ZERO)
qed

section \<open>The median\<close>

lemma cmp_le_iff:
  assumes "0 < denominator a" "0 < denominator b"
  shows "cmp a b \<le> 0 \<longleftrightarrow> value_of a \<le> value_of b"
  by (simp add: cmp_by_value [OF assms])

lemma sorted_insert_cmp:
  assumes "0 < denominator x" "\<forall>y\<in>set ys. 0 < denominator y" "sorted (map value_of ys)"
  shows "sorted (map value_of (insert_cmp x ys))"
  using assms(2,3)
proof (induction ys)
  case Nil
  then show ?case by simp
next
  case (Cons y ys)
  show ?case
  proof (cases "cmp x y \<le> 0")
    case True
    then have "value_of x \<le> value_of y" using cmp_le_iff [OF assms(1), of y] Cons.prems by simp
    then show ?thesis using True Cons.prems by auto
  next
    case False
    then have "value_of y \<le> value_of x" using cmp_le_iff [OF assms(1), of y] Cons.prems by simp
    moreover have "sorted (map value_of (insert_cmp x ys))" using Cons by simp
    ultimately show ?thesis using False Cons.prems by (auto simp: set_insert_cmp)
  qed
qed

lemma sorted_sort_cmp:
  "\<forall>x\<in>set xs. 0 < denominator x \<Longrightarrow> sorted (map value_of (sort_cmp xs))"
proof (induction xs)
  case Nil
  then show ?case by (simp add: sort_cmp_def)
next
  case (Cons x xs)
  have "sorted (map value_of (insert_cmp x (sort_cmp xs)))"
    using Cons by (intro sorted_insert_cmp) (simp_all add: set_sort_cmp)
  then show ?case by (simp add: sort_cmp_def)
qed

lemma map_value_sort_cmp:
  assumes "\<forall>x\<in>set xs. 0 < denominator x"
  shows "map value_of (sort_cmp xs) = sort (map value_of xs)"
proof -
  have "mset (map value_of (sort_cmp xs)) = mset (map value_of xs)"
    by (simp add: mset_sort_cmp)
  from properties_for_sort [OF this sorted_sort_cmp [OF assms]] show ?thesis by simp
qed

lemma median_odd:
  "xs \<noteq> [] \<Longrightarrow> odd (length xs) \<Longrightarrow> median xs s = (Inr (sort_cmp xs ! (length xs div 2)), s)"
  by (simp add: median_def Let_def length_sort_cmp return_def)

lemma median_even:
  "xs \<noteq> [] \<Longrightarrow> even (length xs) \<Longrightarrow>
   median xs s = avg [sort_cmp xs ! (length xs div 2 - 1), sort_cmp xs ! (length xs div 2)] s"
  by (simp add: median_def Let_def length_sort_cmp)

lemma median_empty: "median [] s = (Inl EmptyInput, s)"
  by (simp add: median_def throw_def)

lemma sort_cmp_nth_well_formed:
  assumes "\<forall>x\<in>set xs. well_formed x" "i < length xs"
  shows "well_formed (sort_cmp xs ! i)"
  using assms by (metis length_sort_cmp nth_mem set_sort_cmp)

lemma median_value:
  assumes "cache s = []" "\<forall>x\<in>set xs. well_formed x" "xs \<noteq> []"
  shows "yields (median xs) s
           (if odd (length xs) then sort (map value_of xs) ! (length xs div 2)
            else (sort (map value_of xs) ! (length xs div 2 - 1)
                  + sort (map value_of xs) ! (length xs div 2)) / 2)"
proof -
  let ?h = "length xs div 2"
  have pos: "\<forall>x\<in>set xs. 0 < denominator x" using assms(2) by (simp add: well_formed_pos)
  have h: "?h < length xs" using assms(3) by simp
  have nth: "value_of (sort_cmp xs ! i) = sort (map value_of xs) ! i" if "i < length xs" for i
    using that map_value_sort_cmp [OF pos] by (metis length_sort_cmp nth_map)
  show ?thesis
  proof (cases "odd (length xs)")
    case True
    then show ?thesis
      using median_odd [OF assms(3) True] sort_cmp_nth_well_formed [OF assms(2) h] nth [OF h]
      by (simp add: yields_def)
  next
    case False
    then have h1: "?h - 1 < length xs" using h by simp
    have "yields (avg [sort_cmp xs ! (?h - 1), sort_cmp xs ! ?h]) s
       (sum_list (map value_of [sort_cmp xs ! (?h - 1), sort_cmp xs ! ?h])
          / of_nat (length [sort_cmp xs ! (?h - 1), sort_cmp xs ! ?h]))"
      using sort_cmp_nth_well_formed [OF assms(2) h] sort_cmp_nth_well_formed [OF assms(2) h1]
      by (intro yields_avg [OF assms(1)]) simp_all
    then show ?thesis
      using False median_even [OF assms(3), of s] nth [OF h] nth [OF h1]
      by (simp add: yields_def)
  qed
qed

text \<open>
  Claim C7. With an empty cache and well-formed arguments, \<^verbatim>\<open>median\<close> fails with
  \<^const>\<open>EmptyInput\<close> exactly when it has no argument. The list it sorts by \<^verbatim>\<open>cmp\<close> is a
  rearrangement of the arguments in ascending order of value. For an odd count it returns
  the middle element of the sorted list, for an even count what \<^verbatim>\<open>avg\<close> returns for the
  two middle elements; in both cases the call returns, and the value returned is the
  median of the values (the middle one, or half the sum of the two middle ones).
\<close>

theorem median_spec:
  assumes "cache s = []" "\<forall>x\<in>set xs. well_formed x"
  shows "median [] s = (Inl EmptyInput, s)
       \<and> (fst (median xs s) = Inl EmptyInput \<longleftrightarrow> xs = [])
       \<and> mset (sort_cmp xs) = mset xs \<and> sorted (map value_of (sort_cmp xs))
       \<and> (odd (length xs) \<longrightarrow>
            median xs s = (Inr (sort_cmp xs ! (length xs div 2)), s))
       \<and> (xs \<noteq> [] \<and> even (length xs) \<longrightarrow>
            median xs s = avg [sort_cmp xs ! (length xs div 2 - 1), sort_cmp xs ! (length xs div 2)] s)
       \<and> (xs \<noteq> [] \<longrightarrow>
            (\<exists>r. median xs s = (Inr r, s) \<and> well_formed r \<and>
                 value_of r =
                   (if odd (length xs) then sort (map value_of xs) ! (length xs div 2)
                    else (sort (map value_of xs) ! (length xs div 2 - 1)
                          + sort (map value_of xs) ! (length xs div 2)) / 2)))"
proof -
  have pos: "\<forall>x\<in>set xs. 0 < denominator x" using assms(2) by (simp add: well_formed_pos)
  have 1: "median [] s = (Inl EmptyInput, s)" by (rule median_empty)
  have 7: "xs \<noteq> [] \<longrightarrow>
            (\<exists>r. median xs s = (Inr r, s) \<and> well_formed r \<and>
                 value_of r =
                   (if odd (length xs) then sort (map value_of xs) ! (length xs div 2)
                    else (sort (map value_of xs) ! (length xs div 2 - 1)
                          + sort (map value_of xs) ! (length xs div 2)) / 2))"
    using median_value [OF assms] by (simp add: yields_def)
  have 2: "fst (median xs s) = Inl EmptyInput \<longleftrightarrow> xs = []"
  proof (cases "xs = []")
    case True then show ?thesis by (simp add: median_empty)
  next
    case False
    with 7 obtain r where "median xs s = (Inr r, s)" by blast
    then show ?thesis using False by simp
  qed
  have 5: "odd (length xs) \<longrightarrow> median xs s = (Inr (sort_cmp xs ! (length xs div 2)), s)"
    using median_odd [of xs s] by (cases "xs = []") simp_all
  have 6: "xs \<noteq> [] \<and> even (length xs) \<longrightarrow>
            median xs s = avg [sort_cmp xs ! (length xs div 2 - 1), sort_cmp xs ! (length xs div 2)] s"
    using median_even [of xs s] by simp
  show ?thesis using 1 2 mset_sort_cmp [of xs] sorted_sort_cmp [OF pos] 5 6 7 by blast
qed

text \<open>
  Claim C7 at the specification's scenario, the median of \<open>1\<close>, \<open>2\<close>, \<open>3\<close> (the objects
  \<^verbatim>\<open>fromNumber\<close> returns), and at the four arguments \<open>4\<close>, \<open>1\<close>, \<open>3\<close>, \<open>2\<close>, whose median is
  \<open>5/2\<close>.
\<close>

theorem median_spec_witness:
  "cache initial_state = []
   \<and> fromNumber 2 initial_state = (Inr (new_Rational 2 1), initial_state)
   \<and> median [] initial_state = (Inl EmptyInput, initial_state)
   \<and> median [new_Rational 1 1, new_Rational 2 1, new_Rational 3 1] initial_state
        = (Inr (new_Rational 2 1), initial_state)
   \<and> (\<exists>r. median [new_Rational 4 1, new_Rational 1 1, new_Rational 3 1, new_Rational 2 1] initial_state
              = (Inr r, initial_state) \<and> value_of r = 5 / 2)"
proof -
  let ?xs = "[new_Rational 1 1, new_Rational 2 1, new_Rational 3 1]"
  let ?ys = "[new_Rational 4 1, new_Rational 1 1, new_Rational 3 1, new_Rational 2 1]"
  have c: "cache initial_state = []" by (simp add: initial_state_def)
  have wx: "\<forall>x\<in>set ?xs. well_formed x" by code_simp
  have wy: "\<forall>x\<in>set ?ys. well_formed x" by code_simp
  have n: "fromNumber 2 initial_state = (Inr (new_Rational 2 1), initial_state)"
    using c by (simp add: fromNumber_def fromDecimal_def cached_empty D_number_def e_big_def create_empty)
  have ox: "odd (length ?xs)" "sort_cmp ?xs ! (length ?xs div 2) = new_Rational 2 1" by code_simp+
  have oy: "?ys \<noteq> []" "\<not> odd (length ?ys)"
    "(sort (map value_of ?ys) ! (length ?ys div 2 - 1) + sort (map value_of ?ys) ! (length ?ys div 2)) / 2 = 5 / 2"
    by code_simp+
  have 1: "median [] initial_state = (Inl EmptyInput, initial_state)"
    using median_spec [OF c wx] by blast
  have 2: "median ?xs initial_state = (Inr (new_Rational 2 1), initial_state)"
    using median_spec [OF c wx] ox by simp
  have "?ys \<noteq> [] \<longrightarrow>
          (\<exists>r. median ?ys initial_state = (Inr r, initial_state) \<and> well_formed r \<and>
             value_of r =
               (if odd (length ?ys) then sort (map value_of ?ys) ! (length ?ys div 2)
                else (sort (map value_of ?ys) ! (length ?ys div 2 - 1)
                      + sort (map value_of ?ys) ! (length ?ys div 2)) / 2))"
    using median_spec [OF c wy] by blast
  then have "\<exists>r. median ?ys initial_state = (Inr r, initial_state) \<and> well_formed r \<and>
             value_of r = 5 / 2"
    by (simp only: oy if_False not_False_eq_True simp_thms)
  then have 3: "\<exists>r. median ?ys initial_state = (Inr r, initial_state) \<and> value_of r = 5 / 2"
    by blast
  show ?thesis using c n 1 2 3 by blast
qed

section \<open>Rounding to significant digits\<close>

text \<open>The number of characters of a printed natural number is its number of decimal digits.\<close>

lemma length_toString_nat_le: "1 \<le> m \<Longrightarrow> length (toString_nat k) \<le> m \<longleftrightarrow> k < 10 ^ m"
proof (induction k arbitrary: m rule: toString_nat.induct)
  case (1 k)
  show ?case
  proof (cases "k < 10")
    case True
    have "(10::nat) ^ 1 \<le> 10 ^ m" using "1.prems" by (intro power_increasing) simp_all
    then have "k < 10 ^ m" using True by simp
    moreover have "length (toString_nat k) = 1" using True by (subst toString_nat.simps) simp
    ultimately show ?thesis using "1.prems" by simp
  next
    case False
    have len: "length (toString_nat k) = Suc (length (toString_nat (k div 10)))"
      using False by (subst toString_nat.simps) simp
    show ?thesis
    proof (cases "m = 1")
      case True
      have "toString_nat (k div 10) \<noteq> []" by (rule toString_nat_nonempty)
      then have "0 < length (toString_nat (k div 10))" by simp
      then show ?thesis using True False len by simp
    next
      case m: False
      then have m1: "1 \<le> m - 1" using "1.prems" by simp
      have "length (toString_nat (k div 10)) \<le> m - 1 \<longleftrightarrow> k div 10 < 10 ^ (m - 1)"
        using "1.IH" [OF False m1] .
      moreover have "k div 10 < 10 ^ (m - 1) \<longleftrightarrow> k < 10 ^ (m - 1) * 10"
        by (simp add: div_less_iff_less_mult)
      moreover have "(10::nat) ^ (m - 1) * 10 = 10 ^ m"
        using "1.prems" by (cases m) simp_all
      ultimately show ?thesis using len "1.prems" by auto
    qed
  qed
qed

lemma toString_nat_upper: "k < 10 ^ length (toString_nat k)"
proof -
  have "1 \<le> length (toString_nat k)"
    using toString_nat_nonempty [of k] by (cases "toString_nat k") simp_all
  from length_toString_nat_le [OF this, of k] show ?thesis by simp
qed

lemma toString_nat_lower: "0 < k \<Longrightarrow> 10 ^ (length (toString_nat k) - 1) \<le> k"
proof -
  assume k: "0 < k"
  let ?l = "length (toString_nat k)"
  show ?thesis
  proof (cases "?l \<le> 1")
    case True
    then show ?thesis using k by simp
  next
    case False
    then have "1 \<le> ?l - 1" by simp
    from length_toString_nat_le [OF this, of k] False show ?thesis by auto
  qed
qed

lemma length_toString_nat_eq:
  assumes "1 \<le> m" "10 ^ (m - 1) \<le> k" "k < 10 ^ m"
  shows "length (toString_nat k) = m"
proof -
  have le: "length (toString_nat k) \<le> m" using length_toString_nat_le [OF assms(1)] assms(3) by simp
  have "\<not> length (toString_nat k) \<le> m - 1"
  proof (cases "m = 1")
    case True
    then show ?thesis using toString_nat_nonempty [of k] by simp
  next
    case False
    then have "1 \<le> m - 1" using assms(1) by simp
    from length_toString_nat_le [OF this, of k] assms(2) show ?thesis by simp
  qed
  then show ?thesis using le by simp
qed

lemma roundToSignificants_ZERO: "roundToSignificants ZERO n m = Inr Decimal_ZERO"
  by (simp add: roundToSignificants_def ZERO_def)

text \<open>
  With truncation toward zero, the default method, the significand of a nonzero rational
  rounded to \<open>n \<ge> 1\<close> significant digits has exactly \<open>n\<close> digits: the quotient has more
  than \<open>n\<close> digits, and truncating the surplus cannot carry.
\<close>

lemma roundToSignificants_toZero:
  assumes wf: "well_formed a" and nz: "numerator a \<noteq> 0" and n: "1 \<le> n"
  shows "\<exists>d. roundToSignificants a n toZero = Inr d \<and> digits (significand d) = nat n"
proof -
  define num den where "num = numerator a" and "den = denominator a"
  define N D where "N = nat \<bar>num\<bar>" and "D = nat den"
  define L n' where "L = length (toString_nat D)" and "n' = nat n"
  define E where "E = n' + L"
  define q where "q = N * 10 ^ E div D"
  define dl where "dl = length (toString_nat q)"
  define t where "t = q div 10 ^ (dl - n')"
  have dpos: "0 < den" using wf by (simp add: den_def well_formed_pos)
  have Dpos: "0 < D" and Dint: "int D = den" using dpos by (simp_all add: D_def)
  have Npos: "0 < N" and Nint: "int N = \<bar>num\<bar>" using nz by (simp_all add: N_def num_def)
  have n'pos: "1 \<le> n'" and n'int: "int n' = n" using n by (simp_all add: n'_def)
  have i: "ident a \<noteq> ZERO_instance" using wf nz by (simp add: well_formed_def)
  have sL: "int (length (toString_big den)) = int L"
    using dpos by (simp add: toString_big_def L_def D_def)
  have nE: "nat (n + int L) = E" using n by (simp add: E_def n'_def nat_add_distrib)
  have ext: "e_big num (n + int L) toZero = num * 10 ^ E"
    using n nE by (simp add: e_big_def)
  have "\<bar>num * 10 ^ E\<bar> div \<bar>den\<bar> = int (N * 10 ^ E) div int D"
    using dpos by (simp add: abs_mult Nint Dint)
  also have "\<dots> = int q" by (simp add: q_def zdiv_int)
  finally have ab: "\<bar>num * 10 ^ E\<bar> div \<bar>den\<bar> = int q" .
  have sg: "sgn (num * 10 ^ E) = sgn num" by (simp add: sgn_mult)
  have dv: "divide_big (num * 10 ^ E) den toZero = Inr (sgn num * int q)"
    using dpos ab sg by (simp add: divide_big_def round_quotient_def)
  have "D < 10 ^ L" unfolding L_def by (rule toString_nat_upper)
  then have "10 ^ n' * D \<le> 10 ^ n' * 10 ^ L" by simp
  also have "\<dots> = 10 ^ E" by (simp add: E_def power_add)
  also have "\<dots> \<le> N * 10 ^ E" using Npos by simp
  finally have qge: "10 ^ n' \<le> q"
    using Dpos by (simp add: q_def less_eq_div_iff_mult_less_eq)
  then have qpos: "0 < q" by (metis less_le_trans zero_less_numeral zero_less_power)
  have sq: "sgn num * int q < 0 \<longleftrightarrow> num < 0" using qpos nz by (simp add: num_def mult_less_0_iff sgn_if)
  have dlen: "int (length (toString_big (sgn num * int q))) - (if sgn num * int q < 0 then 1 else 0) = int dl"
  proof (cases "num < 0")
    case True
    then have "sgn num * int q = - int q" by simp
    then show ?thesis using qpos by (simp add: toString_big_def dl_def)
  next
    case False
    then have "sgn num * int q = int q" using nz by (simp add: num_def sgn_if)
    then show ?thesis by (simp only: toString_big_def dl_def) simp
  qed
  have "\<not> q < 10 ^ n'" using qge by simp
  then have "\<not> dl \<le> n'" unfolding dl_def using length_toString_nat_le [OF n'pos, of q] by simp
  then have dlgt: "n' < dl" by simp
  then have sur: "int dl - n = int (dl - n')" using n'int by simp
  have "\<bar>sgn num * int q\<bar> div \<bar>10 ^ (dl - n')\<bar> = int q div int (10 ^ (dl - n'))"
    using nz by (simp add: abs_mult num_def)
  also have "\<dots> = int t" by (simp only: t_def zdiv_int)
  finally have ab2: "\<bar>sgn num * int q\<bar> div \<bar>10 ^ (dl - n')\<bar> = int t" .
  have sg2: "sgn (sgn num * int q) = sgn num" using qpos by (simp add: sgn_mult)
  have neg: "\<not> 0 \<le> - (int dl - n)" using dlgt n'int by linarith
  have nsur: "nat (- (- (int dl - n))) = dl - n'" using dlgt n'int by linarith
  have "e_big (sgn num * int q) (- (int dl - n)) toZero
          = round_quotient (sgn num * int q) (10 ^ (dl - n')) toZero"
    using neg nsur by (simp only: e_big_def if_False)
  also have "\<dots> = sgn (sgn num * int q) * sgn (10 ^ (dl - n')) * (\<bar>sgn num * int q\<bar> div \<bar>10 ^ (dl - n')\<bar>)"
    by (simp add: round_quotient_def)
  also have "\<dots> = sgn num * int t" by (simp only: ab2 sg2) simp
  finally have sig: "e_big (sgn num * int q) (- (int dl - n)) toZero = sgn num * int t" .
  have ql: "10 ^ (dl - 1) \<le> q" unfolding dl_def using qpos by (rule toString_nat_lower)
  have qu: "q < 10 ^ dl" unfolding dl_def by (rule toString_nat_upper)
  have split1: "(10::nat) ^ dl = 10 ^ n' * 10 ^ (dl - n')"
    using dlgt by (simp add: power_add [symmetric])
  have split2: "(10::nat) ^ (dl - 1) = 10 ^ (n' - 1) * 10 ^ (dl - n')"
    using dlgt n'pos by (simp add: power_add [symmetric])
  have tu: "t < 10 ^ n'"
    using qu split1 by (simp add: t_def div_less_iff_less_mult)
  have tl: "10 ^ (n' - 1) \<le> t"
    using ql split2 by (simp add: t_def less_eq_div_iff_mult_less_eq)
  have tlen: "length (toString_nat t) = n'" using n'pos tl tu by (rule length_toString_nat_eq)
  have "nat \<bar>sgn num * int t\<bar> = t" using nz by (simp add: abs_mult num_def)
  then have dg: "digits (sgn num * int t) = n'" using tlen by (simp add: digits_def)
  have "roundToSignificants a n toZero =
          Inr (Decimal_fromBigInt (sgn num * int t) (int dl - n - (n + int L)))"
    using i sL ext dv dlen sig
    by (simp add: roundToSignificants_def Let_def num_def [symmetric] den_def [symmetric])
  then show ?thesis using dg by (simp add: Decimal_fromBigInt_def n'_def)
qed

text \<open>
  Claim C6 does not hold of the code for a rounding method that rounds up: \<open>19/2\<close> rounded
  to one significant digit by the ceiling method gives the significand \<open>10\<close>, which has two
  digits. The digits in surplus are counted before the last rounding pass, and that pass
  can carry into a further digit.
\<close>

theorem roundToSignificants_carry:
  "well_formed (new_Rational 19 2)
   \<and> roundToSignificants (new_Rational 19 2) 1 ceiling_method = Inr \<lparr>significand = 10, exponent = 0\<rparr>
   \<and> digits 10 = 2"
  by code_simp

end
